theory Spec2Isabelle
  imports Complex_Main "HOL-Library.Signed_Division"
begin

section \<open>Configuration constants of PerfectNumbersRoot.c\<close>

definition PRECISION :: int where "PRECISION = 15"
definition BASE_E :: real where "BASE_E = 10"
definition RANGE_UPPER_BOUND :: int where "RANGE_UPPER_BOUND = 10000"
definition RANGE_LOWER_BOUND :: int where "RANGE_LOWER_BOUND = 1"

section \<open>isPerfectNumber\<close>

text \<open>
  The loop guard of \<^verbatim>\<open>isPerfectNumber\<close> is \<^verbatim>\<open>count <= sqrt(number)\<close>: both sides are
  converted to \<^verbatim>\<open>double\<close>, and the square root of a negative number is a NaN, against
  which every comparison is false.  On integers the guard is decided without the square
  root; \<open>count_le_sqrt_real\<close> below relates it to the real square root.
\<close>

definition count_le_sqrt :: "int \<Rightarrow> int \<Rightarrow> bool" where
  "count_le_sqrt count number = (0 \<le> number \<and> (count \<le> 0 \<or> count * count \<le> number))"

text \<open>
  The \<^verbatim>\<open>for\<close> loop of \<^verbatim>\<open>isPerfectNumber\<close>, with the loop variable \<^verbatim>\<open>count\<close> and the
  accumulator \<^verbatim>\<open>sum\<close> (here \<open>sm\<close>) as arguments.  \<^verbatim>\<open>%\<close> and \<^verbatim>\<open>/\<close> of C truncate towards zero:
  \<open>smod\<close> and \<open>sdiv\<close>.
\<close>

function isPerfectNumber_loop :: "int \<Rightarrow> int \<Rightarrow> int \<Rightarrow> int" where
  "isPerfectNumber_loop number count sm =
     (if count_le_sqrt count number then
        (if number smod count = 0 then
           (let pair = number sdiv count in
            if count = pair then isPerfectNumber_loop number (count + 1) (sm + count)
            else isPerfectNumber_loop number (count + 1) (sm + count + pair))
         else isPerfectNumber_loop number (count + 1) sm)
      else sm)"
  by pat_completeness auto
termination
proof (relation "measure (\<lambda>(number, count, sm). nat (number + 1 - count))")
  show "wf (measure (\<lambda>(number, count, sm). nat (number + 1 - count)))" by simp
next
  fix number count sm :: int
  assume "count_le_sqrt count number"
  then have "count \<le> number"
    unfolding count_le_sqrt_def
    by (smt (verit, best) mult_le_cancel_left1 mult_less_cancel_right2 zero_less_mult_iff)
  then have step: "nat (number + 1 - (count + 1)) < nat (number + 1 - count)" by simp
  {
    fix pair assume "number smod count = 0" "pair = number sdiv count" "count = pair"
    from step show "((number, count + 1, sm + count), number, count, sm)
        \<in> measure (\<lambda>(number, count, sm). nat (number + 1 - count))" by simp
  next
    fix pair assume "number smod count = 0" "pair = number sdiv count" "count \<noteq> pair"
    from step show "((number, count + 1, sm + count + pair), number, count, sm)
        \<in> measure (\<lambda>(number, count, sm). nat (number + 1 - count))" by simp
  next
    assume "number smod count \<noteq> 0"
    from step show "((number, count + 1, sm), number, count, sm)
        \<in> measure (\<lambda>(number, count, sm). nat (number + 1 - count))" by simp
  }
qed

definition isPerfectNumber :: "int \<Rightarrow> bool" where
  "isPerfectNumber number =
     (if number smod 2 = 1 then False
      else (let sm = isPerfectNumber_loop number 1 0;
                sm = sm - number
            in if sm = number then True else False))"


text \<open>
  The number of times the body of the \<^verbatim>\<open>for\<close> loop runs, that is the number of trial
  divisors \<^verbatim>\<open>count\<close> tested, along the same control flow.
\<close>

function isPerfectNumber_loop_trials :: "int \<Rightarrow> int \<Rightarrow> nat" where
  "isPerfectNumber_loop_trials number count =
     (if count_le_sqrt count number then Suc (isPerfectNumber_loop_trials number (count + 1))
      else 0)"
  by pat_completeness auto
termination
proof (relation "measure (\<lambda>(number, count). nat (number + 1 - count))")
  show "wf (measure (\<lambda>(number, count). nat (number + 1 - count)))" by simp
next
  fix number count :: int
  assume "count_le_sqrt count number"
  then have "count \<le> number"
    unfolding count_le_sqrt_def
    by (smt (verit, best) mult_le_cancel_left1 mult_less_cancel_right2 zero_less_mult_iff)
  then show "((number, count + 1), number, count)
      \<in> measure (\<lambda>(number, count). nat (number + 1 - count))" by simp
qed

definition isPerfectNumber_trials :: "int \<Rightarrow> nat" where
  "isPerfectNumber_trials number =
     (if number smod 2 = 1 then 0 else isPerfectNumber_loop_trials number 1)"

section \<open>displayFactors\<close>

text \<open>
  \<^verbatim>\<open>displayFactors\<close> prints \<^verbatim>\<open>1\<close> and then every \<^verbatim>\<open>count\<close> from 2 to
  \<^verbatim>\<open>perfectNumber / 2\<close> that divides the number.  The model returns the factors in the
  order in which they are printed.
\<close>

function displayFactors_loop :: "int \<Rightarrow> int \<Rightarrow> int list" where
  "displayFactors_loop perfectNumber count =
     (if count \<le> perfectNumber sdiv 2 then
        (if perfectNumber smod count = 0
         then count # displayFactors_loop perfectNumber (count + 1)
         else displayFactors_loop perfectNumber (count + 1))
      else [])"
  by pat_completeness auto
termination
  by (relation "measure (\<lambda>(perfectNumber, count). nat (perfectNumber sdiv 2 + 1 - count))") auto

definition displayFactors :: "int \<Rightarrow> int list" where
  "displayFactors perfectNumber = 1 # displayFactors_loop perfectNumber 2"

section \<open>Floating-point values\<close>

text \<open>
  A \<^verbatim>\<open>double\<close> or \<^verbatim>\<open>long double\<close> is a finite value, an infinity or a NaN.  Finite
  values are modelled by the reals: rounding, overflow and the sign of zero are not
  modelled, the special values follow IEEE 754 and Annex F of C99.
\<close>

datatype fp = Fin real | PInf | NInf | NaN

fun fp_neg :: "fp \<Rightarrow> fp" where
  "fp_neg (Fin a) = Fin (- a)"
| "fp_neg PInf = NInf"
| "fp_neg NInf = PInf"
| "fp_neg NaN = NaN"

fun fp_add :: "fp \<Rightarrow> fp \<Rightarrow> fp" where
  "fp_add (Fin a) (Fin b) = Fin (a + b)"
| "fp_add NaN _ = NaN"
| "fp_add _ NaN = NaN"
| "fp_add PInf NInf = NaN"
| "fp_add NInf PInf = NaN"
| "fp_add PInf _ = PInf"
| "fp_add _ PInf = PInf"
| "fp_add NInf _ = NInf"
| "fp_add _ NInf = NInf"

definition fp_sub :: "fp \<Rightarrow> fp \<Rightarrow> fp" where
  "fp_sub a b = fp_add a (fp_neg b)"

fun fp_mul :: "fp \<Rightarrow> fp \<Rightarrow> fp" where
  "fp_mul (Fin a) (Fin b) = Fin (a * b)"
| "fp_mul NaN _ = NaN"
| "fp_mul _ NaN = NaN"
| "fp_mul (Fin a) PInf = (if a = 0 then NaN else if 0 < a then PInf else NInf)"
| "fp_mul (Fin a) NInf = (if a = 0 then NaN else if 0 < a then NInf else PInf)"
| "fp_mul PInf (Fin b) = (if b = 0 then NaN else if 0 < b then PInf else NInf)"
| "fp_mul NInf (Fin b) = (if b = 0 then NaN else if 0 < b then NInf else PInf)"
| "fp_mul PInf PInf = PInf"
| "fp_mul NInf NInf = PInf"
| "fp_mul PInf NInf = NInf"
| "fp_mul NInf PInf = NInf"

fun fp_div :: "fp \<Rightarrow> fp \<Rightarrow> fp" where
  "fp_div (Fin a) (Fin b) =
     (if b = 0 then (if a = 0 then NaN else if 0 < a then PInf else NInf) else Fin (a / b))"
| "fp_div NaN _ = NaN"
| "fp_div _ NaN = NaN"
| "fp_div (Fin a) _ = Fin 0"
| "fp_div PInf (Fin b) = (if 0 \<le> b then PInf else NInf)"
| "fp_div NInf (Fin b) = (if 0 \<le> b then NInf else PInf)"
| "fp_div _ _ = NaN"

fun fp_fabs :: "fp \<Rightarrow> fp" where
  "fp_fabs (Fin a) = Fin \<bar>a\<bar>"
| "fp_fabs PInf = PInf"
| "fp_fabs NInf = PInf"
| "fp_fabs NaN = NaN"

text \<open>The comparison \<^verbatim>\<open>a > b\<close>: false as soon as one side is a NaN.\<close>

fun fp_gt :: "fp \<Rightarrow> fp \<Rightarrow> bool" where
  "fp_gt (Fin a) (Fin b) = (b < a)"
| "fp_gt NaN _ = False"
| "fp_gt _ NaN = False"
| "fp_gt PInf PInf = False"
| "fp_gt PInf _ = True"
| "fp_gt _ PInf = False"
| "fp_gt NInf _ = False"
| "fp_gt _ NInf = True"

text \<open>The comparison \<^verbatim>\<open>a <= b\<close>.\<close>

fun fp_le :: "fp \<Rightarrow> fp \<Rightarrow> bool" where
  "fp_le (Fin a) (Fin b) = (a \<le> b)"
| "fp_le NaN _ = False"
| "fp_le _ NaN = False"
| "fp_le NInf _ = True"
| "fp_le _ PInf = True"
| "fp_le _ _ = False"

fun fp_sqrt :: "fp \<Rightarrow> fp" where
  "fp_sqrt (Fin a) = (if a < 0 then NaN else Fin (sqrt a))"
| "fp_sqrt PInf = PInf"
| "fp_sqrt NInf = NaN"
| "fp_sqrt NaN = NaN"

fun fp_log10 :: "fp \<Rightarrow> fp" where
  "fp_log10 (Fin a) = (if a = 0 then NInf else if a < 0 then NaN else Fin (log 10 a))"
| "fp_log10 PInf = PInf"
| "fp_log10 NInf = NaN"
| "fp_log10 NaN = NaN"

fun fp_ceil :: "fp \<Rightarrow> fp" where
  "fp_ceil (Fin a) = Fin (of_int \<lceil>a\<rceil>)"
| "fp_ceil x = x"

text \<open>
  \<^verbatim>\<open>pow(BASE_E, y)\<close>: both calls of \<^verbatim>\<open>pow\<close> in the program have the base
  \<^verbatim>\<open>BASE_E\<close>, which is greater than 1.
\<close>

fun pow_BASE_E :: "fp \<Rightarrow> fp" where
  "pow_BASE_E (Fin y) = Fin (BASE_E powr y)"
| "pow_BASE_E PInf = PInf"
| "pow_BASE_E NInf = Fin 0"
| "pow_BASE_E NaN = NaN"

text \<open>The conversion of an \<^verbatim>\<open>int\<close> to \<^verbatim>\<open>double\<close>.\<close>

definition fp_of_int :: "int \<Rightarrow> fp" where
  "fp_of_int n = Fin (of_int n)"

section \<open>getInitialGuess and computeSquareRoot\<close>

definition getInitialGuess :: "fp \<Rightarrow> fp" where
  "getInitialGuess radicand =
     (let digits = fp_ceil (fp_log10 radicand);
          result = pow_BASE_E (fp_div digits (Fin 2))
      in result)"

text \<open>
  The \<^verbatim>\<open>do ... while\<close> loop of \<^verbatim>\<open>computeSquareRoot\<close>: the body runs, then the test.
  A run that never leaves the loop is the value \<open>None\<close>.  The result is the final guess
  together with the iteration count that the function prints.
\<close>

partial_function (option) computeSquareRoot_loop ::
    "fp \<Rightarrow> fp \<Rightarrow> fp \<Rightarrow> int \<Rightarrow> (fp \<times> int) option" where
  "computeSquareRoot_loop radicand limit guess iterations =
     (let previousGuess = guess;
          guess' = fp_mul (fp_div (Fin 1) (Fin 2)) (fp_add guess (fp_div radicand guess));
          iterations' = iterations + 1
      in if fp_gt (fp_fabs (fp_sub previousGuess guess')) limit
         then computeSquareRoot_loop radicand limit guess' iterations'
         else Some (guess', iterations'))"

definition computeSquareRoot :: "fp \<Rightarrow> (fp \<times> int) option" where
  "computeSquareRoot radicand =
     (let limit = pow_BASE_E (fp_of_int (PRECISION * - 1));
          guess = getInitialGuess radicand;
          iterations = 1
      in computeSquareRoot_loop radicand limit guess iterations)"

section \<open>main\<close>

text \<open>
  The calls that \<^verbatim>\<open>main\<close> makes, in order.  \<^verbatim>\<open>displayExpectedSqrt\<close> and
  \<^verbatim>\<open>computeSquareRoot\<close> take a \<^verbatim>\<open>double\<close>: the \<^verbatim>\<open>int\<close> argument is converted.
\<close>

datatype call = DisplayFactors int | DisplayExpectedSqrt fp | ComputeSquareRoot fp

function main_loop :: "int \<Rightarrow> call list" where
  "main_loop count =
     (if count \<le> RANGE_UPPER_BOUND then
        (if isPerfectNumber count
         then [DisplayFactors count, DisplayExpectedSqrt (fp_of_int count),
               ComputeSquareRoot (fp_of_int count)] @ main_loop (count + 1)
         else main_loop (count + 1))
      else [])"
  by pat_completeness auto
termination
  by (relation "measure (\<lambda>count. nat (RANGE_UPPER_BOUND + 1 - count))") auto

definition main :: "call list" where
  "main = main_loop RANGE_LOWER_BOUND"

fun radicands :: "call list \<Rightarrow> fp list" where
  "radicands [] = []"
| "radicands (ComputeSquareRoot x # cs) = x # radicands cs"
| "radicands (_ # cs) = radicands cs"

section \<open>The reference definition of a perfect number\<close>

text \<open>
  The brute-force reference of the specification: the sum of all \<open>d\<close> with
  \<open>1 \<le> d < n\<close> and \<open>n mod d = 0\<close>, by a scan over \<open>1..n-1\<close>.
\<close>

definition naive_divisor_sum :: "int \<Rightarrow> int" where
  "naive_divisor_sum n = sum_list (filter (\<lambda>d. n mod d = 0) [1..n - 1])"

definition is_perfect_ref :: "int \<Rightarrow> bool" where
  "is_perfect_ref n = (naive_divisor_sum n = n)"

section \<open>One refinement step on finite values\<close>

text \<open>
  The update \<^verbatim>\<open>guess = (1.0/2.0) * (guess + (radicand / guess))\<close> on finite values;
  \<open>(babylonian_step r ^^ j) g\<close> is the guess after \<open>j\<close> refinement steps from \<open>g\<close>.
\<close>

definition babylonian_step :: "real \<Rightarrow> real \<Rightarrow> real" where
  "babylonian_step r g = (1 / 2) * (g + r / g)"

section \<open>Divisor sums\<close>

text \<open>
  The positive divisors of \<open>n\<close> and their sum; \<open>pair_term n d\<close> is what one pass of the
  loop of \<^verbatim>\<open>isPerfectNumber\<close> adds for a divisor \<open>d\<close>.
\<close>

definition divisors :: "int \<Rightarrow> int set" where
  "divisors n = {d \<in> {1..n}. d dvd n}"

definition divisor_sum :: "int \<Rightarrow> int" where
  "divisor_sum n = \<Sum>(divisors n)"

definition pair_term :: "int \<Rightarrow> int \<Rightarrow> int" where
  "pair_term n d = (if d = n div d then d else d + n div d)"


section \<open>A sieve over the numbers 1, 5, 9, ...\<close>

text \<open>
  The functions of this section are not part of the program.  They compute the divisor
  sums of an arithmetic progression \<open>n, n + s, n + 2 s, ...\<close> without division, and serve
  to decide which odd numbers of the scanned range are perfect.  A cell \<open>Cell d q j r\<close>
  belongs to the trial divisor \<open>d\<close>: the next multiple of \<open>d\<close> in the progression is
  \<open>j\<close> steps ahead and equals \<open>q * d\<close>, and \<open>r = d - 1\<close>.
\<close>

datatype cell = Cell int int nat nat

fun cell_d :: "cell \<Rightarrow> int" where
  "cell_d (Cell d q j r) = d"

fun step_cell :: "int \<Rightarrow> cell \<Rightarrow> cell" where
  "step_cell s (Cell d q (Suc k) r) = Cell d q k r"
| "step_cell s (Cell d q 0 r) = Cell d (q + s) r r"

fun advance_cells :: "int \<Rightarrow> cell list \<Rightarrow> cell list" where
  "advance_cells s [] = []"
| "advance_cells s (c # cs) = step_cell s c # advance_cells s cs"

fun hits_total :: "cell list \<Rightarrow> int \<Rightarrow> int" where
  "hits_total [] acc = acc"
| "hits_total (Cell d q 0 r # cs) acc =
     hits_total cs (if d \<le> q then (if d = q then acc + d else acc + d + q) else acc)"
| "hits_total (Cell d q (Suc k) r # cs) acc = hits_total cs acc"

fun sieve_cells :: "nat \<Rightarrow> int \<Rightarrow> nat \<Rightarrow> nat \<Rightarrow> nat \<Rightarrow> cell list" where
  "sieve_cells 0 d a a3 a4 = []"
| "sieve_cells (Suc k) d a a3 a4 =
     Cell d 1 a a4 # Cell (d + 2) 3 (Suc (Suc a3)) (Suc (Suc a4))
     # sieve_cells k (d + 4) (Suc a) (Suc (Suc (Suc a3))) (Suc (Suc (Suc (Suc a4))))"

function sieve_scan :: "int \<Rightarrow> cell list \<Rightarrow> int \<Rightarrow> int \<Rightarrow> int \<Rightarrow> int list" where
  "sieve_scan s cs n n2 hi =
     (if 0 < s \<and> n \<le> hi then
        (if hits_total cs 0 = n2 then n # sieve_scan s (advance_cells s cs) (n + s) (n2 + 2 * s) hi
         else sieve_scan s (advance_cells s cs) (n + s) (n2 + 2 * s) hi)
      else [])"
  by pat_completeness auto
termination
  by (relation "measure (\<lambda>(s, cs, n, n2, hi). nat (hi + 1 - n))") auto

declare sieve_scan.simps [simp del]

fun cell_ok :: "int \<Rightarrow> int \<Rightarrow> cell \<Rightarrow> bool" where
  "cell_ok s n (Cell d q j r) =
     (0 < d \<and> coprime d s \<and> int r = d - 1 \<and> j \<le> r \<and> q * d = n + s * int j)"

definition hit_term :: "int \<Rightarrow> int \<Rightarrow> int" where
  "hit_term n d = (if d dvd n \<and> d * d \<le> n then pair_term n d else 0)"


declare isPerfectNumber_loop.simps [simp del]
declare isPerfectNumber_loop_trials.simps [simp del]
declare displayFactors_loop.simps [simp del]
declare main_loop.simps [simp del]


section \<open>The guard of the divisor loop\<close>

lemma count_le_sqrt_real:
  "count_le_sqrt count number = fp_le (fp_of_int count) (fp_sqrt (fp_of_int number))"
proof (cases "0 \<le> number")
  case False
  then show ?thesis by (simp add: count_le_sqrt_def fp_of_int_def)
next
  case n: True
  show ?thesis
  proof (cases "count \<le> 0")
    case True
    then have "real_of_int count \<le> 0" by simp
    also have "0 \<le> sqrt (real_of_int number)" using n by simp
    finally show ?thesis using n True by (simp add: count_le_sqrt_def fp_of_int_def)
  next
    case False
    then have c: "0 \<le> real_of_int count" by simp
    have "real_of_int count \<le> sqrt (real_of_int number)
        \<longleftrightarrow> (real_of_int count)\<^sup>2 \<le> real_of_int number"
      using c n by (metis of_int_0_le_iff real_le_rsqrt real_sqrt_le_iff real_sqrt_abs abs_of_nonneg)
    also have "\<dots> \<longleftrightarrow> count * count \<le> number"
      by (simp add: power2_eq_square flip: of_int_mult)
    finally show ?thesis using n False by (simp add: count_le_sqrt_def fp_of_int_def)
  qed
qed

section \<open>Truncating division on non-negative operands\<close>

lemma smod_pos: "0 \<le> n \<Longrightarrow> 0 < c \<Longrightarrow> n smod c = n mod (c::int)"
  by (simp add: signed_modulo_int_def signed_divide_int_def sgn_if)

lemma sdiv_pos: "0 \<le> n \<Longrightarrow> 0 < c \<Longrightarrow> n sdiv c = n div (c::int)"
  by (simp add: signed_divide_int_def sgn_if)

lemma displayFactors_loop_filter:
  "0 \<le> n \<Longrightarrow> 0 < c \<Longrightarrow>
   displayFactors_loop n c = filter (\<lambda>d. n mod d = 0) [c..n div 2]"
proof (induction n c rule: displayFactors_loop.induct)
  case (1 n c)
  show ?case
  proof (cases "c \<le> n div 2")
    case True
    then have up: "[c..n div 2] = c # [c + 1..n div 2]" by (simp add: upto_rec1)
    from True 1 show ?thesis
      by (subst displayFactors_loop.simps) (simp add: up sdiv_pos smod_pos)
  next
    case False
    then show ?thesis
      using 1 by (subst displayFactors_loop.simps) (simp add: sdiv_pos)
  qed
qed


section \<open>The perfectness test on odd numbers and on zero\<close>

text \<open>
  Claim C6.  For every odd positive integer \<open>n\<close>, \<^verbatim>\<open>isPerfectNumber\<close> returns false at
  once: the body of the divisor loop never runs.
\<close>

theorem isPerfectNumber_odd_false:
  "0 < n \<Longrightarrow> odd n \<Longrightarrow> isPerfectNumber n = False \<and> isPerfectNumber_trials n = 0"
  by (auto simp add: isPerfectNumber_def isPerfectNumber_trials_def signed_modulo_int_def
      sgn_if odd_iff_mod_2_eq_one)

theorem isPerfectNumber_odd_false_witness:
  "(0::int) < 9 \<and> odd (9::int) \<and> isPerfectNumber 9 = False \<and> isPerfectNumber_trials 9 = 0"
  using isPerfectNumber_odd_false [of 9] by simp

text \<open>
  Claim C10.  For the input 0 the test returns true: 0 is even, the loop body never runs,
  the sum stays 0, and after subtracting the input it equals the input.
\<close>

theorem isPerfectNumber_zero:
  "isPerfectNumber 0 = True \<and> isPerfectNumber_trials 0 = 0 \<and> isPerfectNumber_loop 0 1 0 = 0"
  by (simp add: isPerfectNumber_def isPerfectNumber_trials_def isPerfectNumber_loop.simps
      isPerfectNumber_loop_trials.simps count_le_sqrt_def)

section \<open>The factors that are displayed\<close>

text \<open>
  Claim C5, as stated for every positive integer, fails at 1: \<^verbatim>\<open>displayFactors(1)\<close> prints
  the factor 1, which is the number itself.
\<close>

theorem displayFactors_one_contains_input: "1 \<in> set (displayFactors 1)"
  by (simp add: displayFactors_def)

text \<open>
  Claim C5, amended.  For every integer \<open>n \<ge> 2\<close> the displayed factors are 1 followed by
  every \<open>d\<close> from 2 to \<open>n div 2\<close> that divides \<open>n\<close>, in increasing order; the sequence is
  strictly ascending, starts with 1 and does not contain \<open>n\<close>.  For 28 it is
  \<open>[1, 2, 4, 7, 14]\<close>, with sum 28.
\<close>

theorem displayFactors_proper_divisors: "(2 \<le> n \<longrightarrow>
     displayFactors n = 1 # filter (\<lambda>d. n mod d = 0) [2..n div 2]
   \<and> sorted_wrt (<) (displayFactors n)
   \<and> hd (displayFactors n) = 1
   \<and> n \<notin> set (displayFactors n))
   \<and> displayFactors 28 = [1, 2, 4, 7, 14] \<and> sum_list (displayFactors 28) = 28"
proof -
  have d28: "displayFactors 28 = [1, 2, 4, 7, 14]"
    by (simp add: displayFactors_def displayFactors_loop.simps signed_modulo_int_def signed_divide_int_def)
  {
    assume n: "2 \<le> n"
    have eq: "displayFactors n = 1 # filter (\<lambda>d. n mod d = 0) [2..n div 2]"
      using n by (simp add: displayFactors_def displayFactors_loop_filter)
    have "sorted_wrt (<) [2..n div 2]"
      by (simp add: sorted_wrt_iff_nth_less )
    then have "sorted_wrt (<) (filter (\<lambda>d. n mod d = 0) [2..n div 2])"
      by (rule sorted_wrt_filter)
    then have "sorted_wrt (<) (displayFactors n)"
      by (auto simp add: eq)
    moreover have "n \<notin> set (displayFactors n)"
      using n by (auto simp add: eq)
    ultimately have "displayFactors n = 1 # filter (\<lambda>d. n mod d = 0) [2..n div 2]
   \<and> sorted_wrt (<) (displayFactors n)
   \<and> hd (displayFactors n) = 1
   \<and> n \<notin> set (displayFactors n)" using eq by simp
  }
  then show ?thesis using d28 by auto
qed

theorem displayFactors_proper_divisors_witness: "(2::int) \<le> 6 \<and> displayFactors 6 = [1, 2, 3] \<and> sorted_wrt (<) (displayFactors 6) \<and> 6 \<notin> set (displayFactors 6)"
  using displayFactors_proper_divisors [of 6] by (simp add: upto_rec1)


section \<open>The square-root solver\<close>



text \<open>
  Claim C3, as stated, fails: for the radicand 0 the solver signals nothing.  The initial
  guess is \<open>pow(10, -inf) = 0\<close>, the first refinement computes \<open>0 / 0\<close>, the loop test is
  false on a NaN, and the NaN is returned after one refinement.
\<close>

theorem computeSquareRoot_zero_returns_nan: "computeSquareRoot (Fin 0) = Some (NaN, 2)"
  by (simp add: computeSquareRoot_def getInitialGuess_def computeSquareRoot_loop.simps
      fp_sub_def fp_of_int_def)

text \<open>
  Claim C3, amended.  For every radicand that is zero or negative the solver has no error
  path: it terminates after one refinement step and returns a NaN with the iteration
  count 2.
\<close>

theorem computeSquareRoot_nonpositive:
  "r \<le> 0 \<Longrightarrow> computeSquareRoot (Fin r) = Some (NaN, 2)"
  by (cases "r = 0")
    (simp_all add: computeSquareRoot_def getInitialGuess_def computeSquareRoot_loop.simps
      fp_sub_def fp_of_int_def)

theorem computeSquareRoot_nonpositive_witness:
  "(- 4 :: real) \<le> 0 \<and> computeSquareRoot (Fin (- 4)) = Some (NaN, 2)"
  using computeSquareRoot_nonpositive [of "- 4"] by simp

subsection \<open>The refinement loop on positive radicands\<close>

lemma babylonian_step_pos: "0 < r \<Longrightarrow> 0 < g \<Longrightarrow> 0 < babylonian_step r g"
  by (simp add: babylonian_step_def add_pos_pos)

lemma babylonian_iter_pos: "0 < r \<Longrightarrow> 0 < g \<Longrightarrow> 0 < (babylonian_step r ^^ j) g"
  by (induction j) (simp_all add: babylonian_step_pos)

lemma loop_fin:
  assumes "0 < g"
  shows "computeSquareRoot_loop (Fin r) (Fin eps) (Fin g) it =
     (if eps < \<bar>g - babylonian_step r g\<bar>
      then computeSquareRoot_loop (Fin r) (Fin eps) (Fin (babylonian_step r g)) (it + 1)
      else Some (Fin (babylonian_step r g), it + 1))"
  using assms
  by (subst computeSquareRoot_loop.simps) (simp add: babylonian_step_def fp_sub_def Let_def)

lemma loop_char:
  assumes "0 < r" "0 < g"
    and "\<forall>j<n. eps < \<bar>(babylonian_step r ^^ j) g - (babylonian_step r ^^ Suc j) g\<bar>"
    and "\<not> eps < \<bar>(babylonian_step r ^^ n) g - (babylonian_step r ^^ Suc n) g\<bar>"
  shows "computeSquareRoot_loop (Fin r) (Fin eps) (Fin g) it =
     Some (Fin ((babylonian_step r ^^ Suc n) g), it + int n + 1)"
  using assms
proof (induction n arbitrary: g it)
  case 0
  then show ?case by (subst loop_fin) simp_all
next
  case (Suc n)
  let ?g' = "babylonian_step r g"
  have far: "eps < \<bar>g - ?g'\<bar>" using Suc.prems(3) by (auto dest: spec [of _ 0])
  have pos: "0 < ?g'" using Suc.prems by (simp add: babylonian_step_pos)
  have a: "\<forall>j<n. eps < \<bar>(babylonian_step r ^^ j) ?g' - (babylonian_step r ^^ Suc j) ?g'\<bar>"
  proof (intro allI impI)
    fix j assume "j < n"
    then have "Suc j < Suc n" by simp
    with Suc.prems(3) have "eps < \<bar>(babylonian_step r ^^ Suc j) g - (babylonian_step r ^^ Suc (Suc j)) g\<bar>"
      by blast
    then show "eps < \<bar>(babylonian_step r ^^ j) ?g' - (babylonian_step r ^^ Suc j) ?g'\<bar>"
      by (simp add: funpow_swap1)
  qed
  have b: "\<not> eps < \<bar>(babylonian_step r ^^ n) ?g' - (babylonian_step r ^^ Suc n) ?g'\<bar>"
    using Suc.prems(4) by (simp add: funpow_swap1)
  have "computeSquareRoot_loop (Fin r) (Fin eps) (Fin ?g') (it + 1) =
     Some (Fin ((babylonian_step r ^^ Suc n) ?g'), (it + 1) + int n + 1)"
    by (rule Suc.IH [OF Suc.prems(1) pos a b])
  then show ?case
    using far by (subst loop_fin [OF Suc.prems(2)]) (simp add: funpow_swap1)
qed

lemma step_ge_sqrt:
  assumes "0 < r" "0 < g"
  shows "sqrt r \<le> babylonian_step r g"
proof -
  have "0 \<le> (g - sqrt r)\<^sup>2" by simp
  then have "2 * g * sqrt r \<le> g\<^sup>2 + r"
    using assms by (simp add: power2_diff)
  then have "sqrt r \<le> (g\<^sup>2 + r) / (2 * g)"
    using assms by (simp add: pos_le_divide_eq mult.commute mult.left_commute)
  also have "(g\<^sup>2 + r) / (2 * g) = babylonian_step r g"
    using assms by (simp add: babylonian_step_def power2_eq_square field_simps)
  finally show ?thesis .
qed

lemma step_error:
  assumes "0 < r" "sqrt r \<le> g"
  shows "babylonian_step r g - sqrt r \<le> (g - sqrt r) / 2"
    and "babylonian_step r g \<le> g"
proof -
  have s: "0 < sqrt r" using assms by simp
  then have g: "0 < g" using assms by linarith
  have "sqrt r * sqrt r \<le> sqrt r * g" using assms s by (intro mult_left_mono) simp_all
  moreover have "sqrt r * sqrt r = r" using assms by simp
  ultimately have "r \<le> sqrt r * g" by simp
  then have "r / g \<le> sqrt r" using g by (simp add: pos_divide_le_eq)
  define q where "q = r / g"
  have q1: "q \<le> sqrt r" using \<open>r / g \<le> sqrt r\<close> by (simp add: q_def)
  have "(1 / 2) * (g + q) - sqrt r \<le> (g - sqrt r) / 2"
    using q1 by argo
  moreover have "(1 / 2) * (g + q) \<le> g"
    using q1 assms by argo
  ultimately show "babylonian_step r g - sqrt r \<le> (g - sqrt r) / 2"
    and "babylonian_step r g \<le> g"
    unfolding babylonian_step_def q_def by blast+
qed

lemma iter_error:
  assumes "0 < r" "sqrt r \<le> g"
  shows "sqrt r \<le> (babylonian_step r ^^ j) g \<and> (babylonian_step r ^^ j) g - sqrt r \<le> (g - sqrt r) / 2 ^ j"
proof (induction j)
  case 0
  then show ?case using assms by simp
next
  case (Suc j)
  let ?x = "(babylonian_step r ^^ j) g"
  have pos: "0 < ?x" using Suc assms by (smt (verit) real_sqrt_gt_zero)
  have 1: "sqrt r \<le> babylonian_step r ?x" using step_ge_sqrt [OF assms(1) pos] .
  have "babylonian_step r ?x - sqrt r \<le> (?x - sqrt r) / 2"
    using step_error(1) [OF assms(1)] Suc by blast
  also have "\<dots> \<le> ((g - sqrt r) / 2 ^ j) / 2"
    using Suc by (intro divide_right_mono) simp_all
  finally show ?case using 1 by simp
qed

lemma stop_exists:
  assumes "0 < r" "0 < g" "0 < eps"
  shows "\<exists>n. \<not> eps < \<bar>(babylonian_step r ^^ n) g - (babylonian_step r ^^ Suc n) g\<bar>"
proof -
  let ?g1 = "babylonian_step r g"
  have g1: "sqrt r \<le> ?g1" using step_ge_sqrt assms by simp
  obtain m :: nat where m: "(?g1 - sqrt r) / eps < 2 ^ m"
    using real_arch_pow [of 2 "(?g1 - sqrt r) / eps"] by auto
  let ?x = "(babylonian_step r ^^ m) ?g1"
  have e: "sqrt r \<le> ?x" "?x - sqrt r \<le> (?g1 - sqrt r) / 2 ^ m"
    using iter_error [OF assms(1) g1, of m] by simp_all
  have "(?g1 - sqrt r) / 2 ^ m \<le> eps"
    using m assms(3) by (simp add: field_simps less_imp_le)
  with e have small: "?x - sqrt r \<le> eps" by linarith
  have "sqrt r \<le> babylonian_step r ?x"
    using iter_error [OF assms(1) g1, of "Suc m"] by simp
  moreover have "babylonian_step r ?x \<le> ?x" using step_error(2) [OF assms(1) e(1)] .
  ultimately have "\<bar>?x - babylonian_step r ?x\<bar> \<le> eps" using small by linarith
  then have "\<not> eps < \<bar>(babylonian_step r ^^ Suc m) g - (babylonian_step r ^^ Suc (Suc m)) g\<bar>"
    by (simp add: funpow_swap1)
  then show ?thesis by blast
qed


lemma computeSquareRoot_positive:
  assumes "0 < r"
  shows "\<exists>n. computeSquareRoot (Fin r) =
           Some (Fin ((babylonian_step r ^^ Suc n) (10 powr (of_int \<lceil>log 10 r\<rceil> / 2))), int n + 2)
         \<and> \<bar>(babylonian_step r ^^ n) (10 powr (of_int \<lceil>log 10 r\<rceil> / 2))
            - (babylonian_step r ^^ Suc n) (10 powr (of_int \<lceil>log 10 r\<rceil> / 2))\<bar> \<le> 10 powr (- 15)
         \<and> (\<forall>j<n. \<bar>(babylonian_step r ^^ j) (10 powr (of_int \<lceil>log 10 r\<rceil> / 2))
            - (babylonian_step r ^^ Suc j) (10 powr (of_int \<lceil>log 10 r\<rceil> / 2))\<bar> > 10 powr (- 15))"
proof -
  let ?g0 = "10 powr (of_int \<lceil>log 10 r\<rceil> / 2) :: real"
  let ?eps = "10 powr (- 15) :: real"
  let ?far = "\<lambda>n. ?eps < \<bar>(babylonian_step r ^^ n) ?g0 - (babylonian_step r ^^ Suc n) ?g0\<bar>"
  have g0: "0 < ?g0" by simp
  have eps: "0 < ?eps" by simp
  have "\<exists>n. \<not> ?far n" using stop_exists [OF assms g0 eps] .
  then obtain n where n: "\<not> ?far n" "\<forall>j<n. ?far j"
    using exists_least_iff [of "\<lambda>n. \<not> ?far n"] by auto
  have "computeSquareRoot_loop (Fin r) (Fin ?eps) (Fin ?g0) 1 =
      Some (Fin ((babylonian_step r ^^ Suc n) ?g0), 1 + int n + 1)"
    by (rule loop_char [OF assms g0 n(2) n(1)])
  moreover have "computeSquareRoot (Fin r) = computeSquareRoot_loop (Fin r) (Fin ?eps) (Fin ?g0) 1"
    using assms by (simp add: computeSquareRoot_def getInitialGuess_def fp_of_int_def PRECISION_def BASE_E_def)
  ultimately show ?thesis using n by (intro exI [of _ n]) (simp add: not_less)
qed





subsection \<open>The radicand 6 in exact arithmetic\<close>

lemma step_error_exact:
  assumes "0 < r" "0 < g"
  shows "babylonian_step r g - sqrt r = (g - sqrt r)\<^sup>2 / (2 * g)"
proof -
  have "sqrt r * sqrt r = r" using assms by simp
  then have "(g - sqrt r)\<^sup>2 = g * g + r - 2 * g * sqrt r"
    by (simp add: power2_eq_square algebra_simps)
  then have "(g - sqrt r)\<^sup>2 / (2 * g) = (g * g + r) / (2 * g) - sqrt r"
    using assms by (simp add: diff_divide_distrib)
  also have "(g * g + r) / (2 * g) = babylonian_step r g"
    using assms by (simp add: babylonian_step_def add_divide_distrib)
  finally show ?thesis by simp
qed

lemma step_error_upper:
  assumes "0 < r" "2 \<le> sqrt r" "sqrt r \<le> g" "g - sqrt r \<le> u"
  shows "babylonian_step r g - sqrt r \<le> u\<^sup>2 / 4"
proof -
  have g: "0 < g" "4 \<le> 2 * g" using assms by linarith+
  have "(g - sqrt r)\<^sup>2 \<le> u\<^sup>2" using assms by (intro power_mono) simp_all
  then have "(g - sqrt r)\<^sup>2 / (2 * g) \<le> u\<^sup>2 / (2 * g)" using g by (intro divide_right_mono) simp_all
  also have "\<dots> \<le> u\<^sup>2 / 4" using g by (intro divide_left_mono) simp_all
  finally show ?thesis using step_error_exact [OF assms(1) g(1)] by simp
qed

lemma step_error_lower:
  assumes "0 < r" "sqrt r \<le> g" "g \<le> G" "0 \<le> l" "l \<le> g - sqrt r"
  shows "l\<^sup>2 / (2 * G) \<le> babylonian_step r g - sqrt r"
proof -
  have g: "0 < g" using assms by (smt (verit) real_sqrt_gt_zero)
  have "l\<^sup>2 \<le> (g - sqrt r)\<^sup>2" using assms by (intro power_mono) simp_all
  then have "l\<^sup>2 / (2 * G) \<le> (g - sqrt r)\<^sup>2 / (2 * G)"
    using g assms by (intro divide_right_mono) simp_all
  also have "\<dots> \<le> (g - sqrt r)\<^sup>2 / (2 * g)"
    using g assms by (intro divide_left_mono) simp_all
  finally show ?thesis using step_error_exact [OF assms(1) g] by simp
qed

lemma step_change:
  assumes "0 < r" "sqrt r \<le> g"
  shows "(g - sqrt r) / 2 \<le> g - babylonian_step r g"
    and "g - babylonian_step r g \<le> g - sqrt r"
    and "babylonian_step r g - sqrt r \<le> g - babylonian_step r g"
proof -
  have g: "0 < g" using assms by (smt (verit) real_sqrt_gt_zero)
  have a: "babylonian_step r g - sqrt r \<le> (g - sqrt r) / 2" using step_error(1) [OF assms] .
  have b: "sqrt r \<le> babylonian_step r g" using step_ge_sqrt [OF assms(1) g] .
  show "(g - sqrt r) / 2 \<le> g - babylonian_step r g" using a by argo
  show "g - babylonian_step r g \<le> g - sqrt r" using b by simp
  show "babylonian_step r g - sqrt r \<le> g - babylonian_step r g" using a by argo
qed

lemma sqrt_6_bounds: "2.449489742783178 \<le> sqrt 6" "sqrt 6 \<le> 2.449489742783179"
  by (rule real_le_rsqrt; simp add: power2_eq_square)
     (rule real_le_lsqrt; simp add: power2_eq_square)

lemma sqrt_6_crude: "12 / 5 \<le> sqrt 6" "sqrt 6 \<le> 49 / 20"
  by (rule real_le_rsqrt; simp add: power2_eq_square)
     (rule real_le_lsqrt; simp add: power2_eq_square)

lemma sqrt_10_crude: "79 / 25 \<le> sqrt 10" "sqrt 10 \<le> 16 / 5"
  by (rule real_le_rsqrt; simp add: power2_eq_square)
     (rule real_le_lsqrt; simp add: power2_eq_square)

lemma initial_guess_6: "getInitialGuess (Fin 6) = Fin (sqrt 10)"
proof -
  have "0 < log 10 6" by simp
  moreover have "log 10 6 \<le> log 10 10" by (subst log_le_cancel_iff) simp_all
  ultimately have "\<lceil>log 10 6 :: real\<rceil> = 1" by (intro ceiling_unique) simp_all
  then show ?thesis by (simp add: getInitialGuess_def BASE_E_def powr_half_sqrt)
qed


lemma limit_value: "(10::real) powr (- 15) = 1 / 1000000000000000"
  by (simp add: powr_minus_divide)

lemma bounds_step_6:
  assumes "sqrt 6 \<le> g" "g \<le> 16 / 5" "0 \<le> l" "l \<le> g - sqrt 6" "g - sqrt 6 \<le> u"
    and "l' \<le> l\<^sup>2 / (32 / 5)" "u\<^sup>2 / 4 \<le> u'"
  shows "sqrt 6 \<le> babylonian_step 6 g" "babylonian_step 6 g \<le> 16 / 5"
    "l' \<le> babylonian_step 6 g - sqrt 6" "babylonian_step 6 g - sqrt 6 \<le> u'"
proof -
  have g: "0 < g" using assms(1) sqrt_6_crude(1) by linarith
  show "sqrt 6 \<le> babylonian_step 6 g" by (rule step_ge_sqrt [OF _ g]) simp
  have "babylonian_step 6 g \<le> g" by (rule step_error(2) [OF _ assms(1)]) simp
  with assms(2) show "babylonian_step 6 g \<le> 16 / 5" by simp
  have "l\<^sup>2 / (2 * (16 / 5)) \<le> babylonian_step 6 g - sqrt 6"
    by (rule step_error_lower [OF _ assms(1,2,3,4)]) simp
  with assms(6) show "l' \<le> babylonian_step 6 g - sqrt 6" by simp
  have "2 \<le> sqrt 6" using sqrt_6_crude(1) by linarith
  then have "babylonian_step 6 g - sqrt 6 \<le> u\<^sup>2 / 4"
    by (intro step_error_upper [OF _ _ assms(1) assms(5)]) simp_all
  with assms(7) show "babylonian_step 6 g - sqrt 6 \<le> u'" by simp
qed

lemma far_step_6:
  assumes "sqrt 6 \<le> g" "l \<le> g - sqrt 6" "eps < l / 2"
  shows "eps < \<bar>g - babylonian_step 6 g\<bar>"
proof -
  have "(g - sqrt 6) / 2 \<le> g - babylonian_step 6 g"
    by (rule step_change(1) [OF _ assms(1)]) simp
  with assms(2,3) have "eps < g - babylonian_step 6 g" by argo
  also have "\<dots> \<le> \<bar>g - babylonian_step 6 g\<bar>" by (rule abs_ge_self)
  finally show ?thesis .
qed

lemma near_step_6:
  assumes "sqrt 6 \<le> g" "g - sqrt 6 \<le> u" "u \<le> eps"
  shows "\<not> eps < \<bar>g - babylonian_step 6 g\<bar>"
    and "\<bar>babylonian_step 6 g - sqrt 6\<bar> \<le> eps"
proof -
  have g: "0 < g" using assms(1) sqrt_6_crude(1) by linarith
  have a: "g - babylonian_step 6 g \<le> g - sqrt 6"
    by (rule step_change(2) [OF _ assms(1)]) simp
  have b: "sqrt 6 \<le> babylonian_step 6 g" by (rule step_ge_sqrt [OF _ g]) simp
  have c: "babylonian_step 6 g \<le> g" by (rule step_error(2) [OF _ assms(1)]) simp
  show "\<not> eps < \<bar>g - babylonian_step 6 g\<bar>" using a c assms(2,3) by linarith
  show "\<bar>babylonian_step 6 g - sqrt 6\<bar> \<le> eps" using a b c assms(2,3) by linarith
qed

text \<open>
  With exact arithmetic on finite values, the solver leaves its loop for the radicand 6
  after six refinement steps, with the count 7 and a result within \<open>10 powr (- 15)\<close> of
  \<open>sqrt 6\<close>.  The rounding of \<^verbatim>\<open>long double\<close> arithmetic is outside this model.
\<close>

lemma computeSquareRoot_6_exact_arithmetic:
  "\<exists>y. computeSquareRoot (Fin 6) = Some (Fin y, 7) \<and> \<bar>y - sqrt 6\<bar> \<le> 10 powr (- 15)"
proof -
  let ?f = "babylonian_step 6"
  let ?eps = "1 / 1000000000000000 :: real"
  define x0 where "x0 = sqrt 10"
  define x1 where "x1 = ?f x0"
  define x2 where "x2 = ?f x1"
  define x3 where "x3 = ?f x2"
  define x4 where "x4 = ?f x3"
  define x5 where "x5 = ?f x4"
  define x6 where "x6 = ?f x5"
  have b0: "sqrt 6 \<le> x0" "x0 \<le> 16 / 5" "71 / 100 \<le> x0 - sqrt 6" "x0 - sqrt 6 \<le> 4 / 5"
    using sqrt_6_crude sqrt_10_crude unfolding x0_def by linarith+
  have b1: "sqrt 6 \<le> x1" "x1 \<le> 16 / 5" "787 / 10000 \<le> x1 - sqrt 6" "x1 - sqrt 6 \<le> 16 / 100"
    unfolding x1_def
    using bounds_step_6 [OF b0(1,2) _ b0(3,4), of "787 / 10000" "16 / 100"]
    by (simp_all add: power2_eq_square)
  have b2: "sqrt 6 \<le> x2" "x2 \<le> 16 / 5" "967 / 1000000 \<le> x2 - sqrt 6" "x2 - sqrt 6 \<le> 64 / 10000"
    unfolding x2_def
    using bounds_step_6 [OF b1(1,2) _ b1(3,4), of "967 / 1000000" "64 / 10000"]
    by (simp_all add: power2_eq_square)
  have b3: "sqrt 6 \<le> x3" "x3 \<le> 16 / 5" "146 / 1000000000 \<le> x3 - sqrt 6"
      "x3 - sqrt 6 \<le> 1024 / 100000000"
    unfolding x3_def
    using bounds_step_6 [OF b2(1,2) _ b2(3,4), of "146 / 1000000000" "1024 / 100000000"]
    by (simp_all add: power2_eq_square)
  have b4: "sqrt 6 \<le> x4" "x4 \<le> 16 / 5" "33 / 10000000000000000 \<le> x4 - sqrt 6"
      "x4 - sqrt 6 \<le> 27 / 1000000000000"
    unfolding x4_def
    using bounds_step_6 [OF b3(1,2) _ b3(3,4), of "33 / 10000000000000000" "27 / 1000000000000"]
    by (simp_all add: power2_eq_square)
  have b5: "sqrt 6 \<le> x5" "x5 \<le> 16 / 5" "0 \<le> x5 - sqrt 6"
      "x5 - sqrt 6 \<le> 1 / 1000000000000000000000"
    unfolding x5_def
    using bounds_step_6 [OF b4(1,2) _ b4(3,4), of "0" "1 / 1000000000000000000000"]
    by (simp_all add: power2_eq_square)
  have f0: "?eps < \<bar>x0 - x1\<bar>" unfolding x1_def by (rule far_step_6 [OF b0(1,3)]) simp
  have f1: "?eps < \<bar>x1 - x2\<bar>" unfolding x2_def by (rule far_step_6 [OF b1(1,3)]) simp
  have f2: "?eps < \<bar>x2 - x3\<bar>" unfolding x3_def by (rule far_step_6 [OF b2(1,3)]) simp
  have f3: "?eps < \<bar>x3 - x4\<bar>" unfolding x4_def by (rule far_step_6 [OF b3(1,3)]) simp
  have f4: "?eps < \<bar>x4 - x5\<bar>" unfolding x5_def by (rule far_step_6 [OF b4(1,3)]) simp
  have n5: "\<not> ?eps < \<bar>x5 - x6\<bar>" and acc: "\<bar>x6 - sqrt 6\<bar> \<le> ?eps"
    unfolding x6_def by (rule near_step_6 [OF b5(1,4)]; simp)+
  have it: "(?f ^^ 0) x0 = x0" "(?f ^^ 1) x0 = x1" "(?f ^^ 2) x0 = x2" "(?f ^^ 3) x0 = x3"
    "(?f ^^ 4) x0 = x4" "(?f ^^ 5) x0 = x5" "(?f ^^ 6) x0 = x6"
    by (simp_all add: eval_nat_numeral x1_def x2_def x3_def x4_def x5_def x6_def)
  have far: "\<forall>j<5. ?eps < \<bar>(?f ^^ j) x0 - (?f ^^ Suc j) x0\<bar>"
  proof (intro allI impI)
    fix j :: nat assume "j < 5"
    then have "j = 0 \<or> j = 1 \<or> j = 2 \<or> j = 3 \<or> j = 4" by arith
    then show "?eps < \<bar>(?f ^^ j) x0 - (?f ^^ Suc j) x0\<bar>"
      using f0 f1 f2 f3 f4 it by (elim disjE) (simp_all add: eval_nat_numeral)
  qed
  have near: "\<not> ?eps < \<bar>(?f ^^ 5) x0 - (?f ^^ Suc 5) x0\<bar>"
    using n5 it by (simp add: eval_nat_numeral)
  have x0pos: "0 < x0" using b0(1) sqrt_6_crude(1) by linarith
  have "computeSquareRoot_loop (Fin 6) (Fin ?eps) (Fin x0) 1 =
      Some (Fin ((?f ^^ Suc 5) x0), 1 + int 5 + 1)"
    by (rule loop_char [OF _ x0pos far near]) simp
  moreover have "(?f ^^ Suc 5) x0 = x6" using it by (simp add: eval_nat_numeral)
  moreover have "computeSquareRoot (Fin 6) = computeSquareRoot_loop (Fin 6) (Fin ?eps) (Fin x0) 1"
    by (simp add: computeSquareRoot_def initial_guess_6 fp_of_int_def PRECISION_def BASE_E_def
        limit_value x0_def)
  ultimately have "computeSquareRoot (Fin 6) = Some (Fin x6, 7)" by simp
  with acc show ?thesis by (auto simp add: limit_value)
qed

section \<open>The pairing loop computes the divisor sum\<close>

lemma finite_int_range [simp]: "finite {d::int. a \<le> d \<and> d \<le> b \<and> P d}"
  by (rule finite_subset [of _ "{a..b}"]) auto

lemma finite_divisors [simp]: "finite (divisors n)"
  unfolding divisors_def by (rule finite_subset [of _ "{1..n}"]) auto

lemma divisors_pos: "d \<in> divisors n \<Longrightarrow> 0 < d \<and> d \<le> n \<and> d dvd n"
  by (simp add: divisors_def)

lemma divisors_iff: "0 < n \<Longrightarrow> d \<in> divisors n \<longleftrightarrow> 0 < d \<and> d dvd n"
  by (auto simp add: divisors_def dest: zdvd_imp_le)

lemma divisors_cofactor:
  assumes "0 < n" "d \<in> divisors n"
  shows "n div d \<in> divisors n" "d * (n div d) = n" "n div (n div d) = d"
proof -
  from assms have d: "0 < d" "d dvd n" by (simp_all add: divisors_iff)
  then show m: "d * (n div d) = n" by simp
  with assms d have q: "0 < n div d" by (metis zero_less_mult_pos)
  have "n div d dvd n" using m by (metis dvd_triv_right)
  with q assms show "n div d \<in> divisors n" by (simp add: divisors_iff)
  from m q show "n div (n div d) = d" by (metis less_irrefl nonzero_mult_div_cancel_right)
qed

lemma loop_closed_form:
  "0 \<le> n \<Longrightarrow> 0 < c \<Longrightarrow>
   isPerfectNumber_loop n c sm =
     sm + (\<Sum>d \<in> {d \<in> {c..n}. d * d \<le> n \<and> d dvd n}. pair_term n d)"
proof (induction n c sm rule: isPerfectNumber_loop.induct)
  case (1 n c sm)
  let ?S = "\<lambda>c. {d \<in> {c..n}. d * d \<le> n \<and> d dvd n}"
  show ?case
  proof (cases "c * c \<le> n")
    case True
    then have guard: "count_le_sqrt c n" using "1.prems" by (simp add: count_le_sqrt_def)
    have "c * 1 \<le> c * c" using "1.prems" by (intro mult_left_mono) simp_all
    then have cn: "c \<le> n" using True by simp
    show ?thesis
    proof (cases "c dvd n")
      case dv: True
      then have split: "?S c = insert c (?S (c + 1))" using True cn by auto
      have notin: "c \<notin> ?S (c + 1)" by simp
      have sum: "(\<Sum>d \<in> ?S c. pair_term n d) = pair_term n c + (\<Sum>d \<in> ?S (c + 1). pair_term n d)"
        unfolding split using notin by (subst sum.insert) simp_all
      have m0: "n smod c = 0" using dv "1.prems" by (simp add: smod_pos)
      show ?thesis
      proof (cases "c = n div c")
        case eq: True
        have "isPerfectNumber_loop n c sm = isPerfectNumber_loop n (c + 1) (sm + c)"
          using guard m0 eq "1.prems" by (subst isPerfectNumber_loop.simps) (simp add: sdiv_pos Let_def)
        also have "\<dots> = (sm + c) + (\<Sum>d \<in> ?S (c + 1). pair_term n d)"
          using "1.IH"(1) [OF guard m0 refl] eq "1.prems" by (simp add: sdiv_pos)
        finally have "isPerfectNumber_loop n c sm = sm + (c + (\<Sum>d \<in> ?S (c + 1). pair_term n d))"
          by (simp only: add.assoc)
        moreover have "pair_term n c = c" using eq by (simp add: pair_term_def)
        ultimately show ?thesis by (simp only: sum)
      next
        case ne: False
        have "isPerfectNumber_loop n c sm = isPerfectNumber_loop n (c + 1) (sm + c + n div c)"
          using guard m0 ne "1.prems" by (subst isPerfectNumber_loop.simps) (simp add: sdiv_pos Let_def)
        also have "\<dots> = (sm + c + n div c) + (\<Sum>d \<in> ?S (c + 1). pair_term n d)"
          using "1.IH"(2) [OF guard m0 refl] ne "1.prems" by (simp add: sdiv_pos)
        finally have "isPerfectNumber_loop n c sm = sm + ((c + n div c) + (\<Sum>d \<in> ?S (c + 1). pair_term n d))"
          by (simp only: add.assoc)
        moreover have "pair_term n c = c + n div c" using ne by (simp add: pair_term_def)
        ultimately show ?thesis by (simp only: sum)
      qed
    next
      case ndv: False
      then have same: "?S c = ?S (c + 1)"
        by (auto simp add: order_le_less)
      have m0: "n smod c \<noteq> 0" using ndv "1.prems" by (simp add: smod_pos dvd_eq_mod_eq_0)
      have "isPerfectNumber_loop n c sm = isPerfectNumber_loop n (c + 1) sm"
        using guard m0 by (subst isPerfectNumber_loop.simps) simp
      also have "\<dots> = sm + (\<Sum>d \<in> ?S (c + 1). pair_term n d)"
        using "1.IH"(3) [OF guard m0] "1.prems" by simp
      finally show ?thesis by (simp only: same)
    qed
  next
    case False
    then have guard: "\<not> count_le_sqrt c n" using "1.prems" by (simp add: count_le_sqrt_def)
    have "?S c = {}"
    proof -
      { fix d assume "c \<le> d" "d * d \<le> n"
        then have "c * c \<le> d * d" using "1.prems" by (simp add: mult_mono)
        with \<open>d * d \<le> n\<close> False have False by simp }
      then show ?thesis by auto
    qed
    then have "(\<Sum>d \<in> ?S c. pair_term n d) = 0" by (simp only: sum.empty)
    moreover have "isPerfectNumber_loop n c sm = sm"
      using guard by (subst isPerfectNumber_loop.simps) simp
    ultimately show ?thesis by (simp only: add_0_right)
  qed
qed


lemma cofactor_gt:
  assumes "0 < n" "d \<in> divisors n" "d * d < n"
  shows "n < (n div d) * (n div d)"
proof -
  have d: "0 < d" using assms by (simp add: divisors_iff)
  have m: "d * (n div d) = n" using divisors_cofactor(2) [OF assms(1,2)] .
  have q: "0 < n div d" using divisors_cofactor(1) [OF assms(1,2)] assms(1) by (simp add: divisors_iff)
  have "d < n div d"
  proof (rule ccontr)
    assume "\<not> d < n div d"
    then have "n div d \<le> d" by simp
    then have "d * (n div d) \<le> d * d" using d by (intro mult_left_mono) simp_all
    with m assms(3) show False by simp
  qed
  then have "d * (n div d) < (n div d) * (n div d)" using q by (intro mult_strict_right_mono)
  with m show ?thesis by simp
qed

lemma cofactor_lt:
  assumes "0 < n" "d \<in> divisors n" "n < d * d"
  shows "(n div d) * (n div d) < n"
proof -
  have d: "0 < d" using assms by (simp add: divisors_iff)
  have m: "d * (n div d) = n" using divisors_cofactor(2) [OF assms(1,2)] .
  have q: "0 < n div d" using divisors_cofactor(1) [OF assms(1,2)] assms(1) by (simp add: divisors_iff)
  have "n div d < d"
  proof (rule ccontr)
    assume "\<not> n div d < d"
    then have "d \<le> n div d" by simp
    then have "d * d \<le> d * (n div d)" using d by (intro mult_left_mono) simp_all
    with m assms(3) show False by simp
  qed
  then have "(n div d) * (n div d) < d * (n div d)" using q by (intro mult_strict_right_mono)
  with m show ?thesis by simp
qed

lemma pairing_sum:
  assumes n: "0 < n"
  shows "(\<Sum>d \<in> {d \<in> {1..n}. d * d \<le> n \<and> d dvd n}. pair_term n d) = divisor_sum n"
proof -
  let ?D = "divisors n"
  let ?L = "{d \<in> ?D. d * d < n}"
  let ?M = "{d \<in> ?D. d * d = n}"
  let ?U = "{d \<in> ?D. n < d * d}"
  have finL: "finite ?L" and finM: "finite ?M" and finU: "finite ?U" by simp_all
  have S: "{d \<in> {1..n}. d * d \<le> n \<and> d dvd n} = ?L \<union> ?M"
    by (auto simp add: divisors_def)
  have D: "?D = (?L \<union> ?M) \<union> ?U" by auto
  have LM: "?L \<inter> ?M = {}" and LMU: "(?L \<union> ?M) \<inter> ?U = {}" by auto
  have onL: "(\<Sum>d \<in> ?L. pair_term n d) = (\<Sum>d \<in> ?L. d) + (\<Sum>d \<in> ?L. n div d)"
  proof -
    have "(\<Sum>d \<in> ?L. pair_term n d) = (\<Sum>d \<in> ?L. d + n div d)"
    proof (rule sum.cong [OF refl])
      fix d assume "d \<in> ?L"
      then have dd: "d \<in> ?D" "d * d < n" by simp_all
      have "d * (n div d) = n" using divisors_cofactor(2) [OF n dd(1)] .
      with dd(2) have "d \<noteq> n div d" by auto
      then show "pair_term n d = d + n div d" by (simp add: pair_term_def)
    qed
    then show ?thesis by (simp add: sum.distrib)
  qed
  have onM: "(\<Sum>d \<in> ?M. pair_term n d) = (\<Sum>d \<in> ?M. d)"
  proof (rule sum.cong [OF refl])
    fix d assume "d \<in> ?M"
    then have dd: "d \<in> ?D" "d * d = n" by simp_all
    then have "0 < d" using n by (simp add: divisors_iff)
    with dd(2) have "n div d = d" by (metis less_irrefl nonzero_mult_div_cancel_right)
    then show "pair_term n d = d" by (simp add: pair_term_def)
  qed
  have LU: "(\<Sum>d \<in> ?L. n div d) = (\<Sum>d \<in> ?U. d)"
  proof (rule sum.reindex_bij_witness [of _ "\<lambda>e. n div e" "\<lambda>d. n div d"])
    fix d assume "d \<in> ?L"
    then have dd: "d \<in> ?D" "d * d < n" by simp_all
    show "n div (n div d) = d" using divisors_cofactor(3) [OF n dd(1)] .
    show "n div d \<in> ?U"
      using divisors_cofactor(1) [OF n dd(1)] cofactor_gt [OF n dd] by simp
  next
    fix e assume "e \<in> ?U"
    then have ee: "e \<in> ?D" "n < e * e" by simp_all
    show "n div (n div e) = e" using divisors_cofactor(3) [OF n ee(1)] .
    show "n div e \<in> ?L"
      using divisors_cofactor(1) [OF n ee(1)] cofactor_lt [OF n ee] by simp
  qed simp
  have "(\<Sum>d \<in> ?L \<union> ?M. pair_term n d) = (\<Sum>d \<in> ?L. pair_term n d) + (\<Sum>d \<in> ?M. pair_term n d)"
    by (rule sum.union_disjoint [OF finL finM LM])
  also have "\<dots> = ((\<Sum>d \<in> ?L. d) + (\<Sum>d \<in> ?M. d)) + (\<Sum>d \<in> ?U. d)"
    by (simp only: onL onM LU)
  also have "(\<Sum>d \<in> ?L. d) + (\<Sum>d \<in> ?M. d) = (\<Sum>d \<in> ?L \<union> ?M. d)"
    by (rule sum.union_disjoint [OF finL finM LM, symmetric])
  also have "(\<Sum>d \<in> ?L \<union> ?M. d) + (\<Sum>d \<in> ?U. d) = (\<Sum>d \<in> (?L \<union> ?M) \<union> ?U. d)"
    by (rule sum.union_disjoint [symmetric]) (use finL finM finU LMU in auto)
  finally show ?thesis unfolding S divisor_sum_def using D by simp
qed

lemma isPerfectNumber_loop_divisor_sum:
  "0 < n \<Longrightarrow> isPerfectNumber_loop n 1 0 = divisor_sum n"
  using loop_closed_form [of n 1 0] pairing_sum [of n] by simp

lemma naive_divisor_sum_eq:
  assumes "0 < n"
  shows "naive_divisor_sum n = divisor_sum n - n"
proof -
  have "naive_divisor_sum n = (\<Sum>d \<in> set (filter (\<lambda>d. n mod d = 0) [1..n - 1]). d)"
    unfolding naive_divisor_sum_def
    using sum_list_distinct_conv_sum_set [of "filter (\<lambda>d. n mod d = 0) [1..n - 1]" "\<lambda>d. d"]
    by simp
  also have "set (filter (\<lambda>d. n mod d = 0) [1..n - 1]) = divisors n - {n}"
    using assms by (auto simp add: divisors_def)
  also have "(\<Sum>d \<in> divisors n - {n}. d) = divisor_sum n - n"
  proof -
    have "n \<in> divisors n" using assms by (simp add: divisors_def)
    then show ?thesis unfolding divisor_sum_def by (simp add: sum_diff1)
  qed
  finally show ?thesis .
qed

lemma isPerfectNumber_iff:
  "0 < n \<Longrightarrow> isPerfectNumber n \<longleftrightarrow> even n \<and> divisor_sum n = 2 * n"
  by (auto simp add: isPerfectNumber_def isPerfectNumber_loop_divisor_sum smod_pos Let_def
      even_iff_mod_2_eq_zero)

lemma is_perfect_ref_iff:
  "0 < n \<Longrightarrow> is_perfect_ref n \<longleftrightarrow> divisor_sum n = 2 * n"
  by (auto simp add: is_perfect_ref_def naive_divisor_sum_eq)

section \<open>Odd numbers congruent to 3 modulo 4 and even perfect numbers\<close>

lemma mod4_pair:
  fixes a b :: int
  assumes "(a * b) mod 4 = 3"
  shows "(a + b) mod 4 = 0"
proof -
  have ab: "((a mod 4) * (b mod 4)) mod 4 = 3" using assms by (simp add: mod_mult_eq)
  have a: "a mod 4 = 0 \<or> a mod 4 = 1 \<or> a mod 4 = 2 \<or> a mod 4 = 3" by presburger
  have b: "b mod 4 = 0 \<or> b mod 4 = 1 \<or> b mod 4 = 2 \<or> b mod 4 = 3" by presburger
  have "((a mod 4) + (b mod 4)) mod 4 = 0"
    using a b ab by (elim disjE) simp_all
  then show ?thesis by (simp add: mod_add_eq)
qed

lemma not_perfect_3_mod_4:
  assumes n: "0 < n" "n mod 4 = 3"
  shows "divisor_sum n \<noteq> 2 * n"
proof
  assume perfect: "divisor_sum n = 2 * n"
  let ?S = "{d \<in> {1..n}. d * d \<le> n \<and> d dvd n}"
  have "4 dvd (\<Sum>d \<in> ?S. pair_term n d)"
  proof (rule dvd_sum)
    fix d assume "d \<in> ?S"
    then have d: "1 \<le> d" "d dvd n" by simp_all
    then have m: "d * (n div d) = n" by simp
    then have "(d * (n div d)) mod 4 = 3" using n(2) by simp
    then have s0: "(d + n div d) mod 4 = 0" by (rule mod4_pair)
    have "d \<noteq> n div d"
    proof
      assume e: "d = n div d"
      with s0 have "(d + d) mod 4 = 0" by simp
      then have "even d" by presburger
      then have "even (d * (n div d))" by simp
      with m have "even n" by simp
      with n(2) show False by presburger
    qed
    then have "pair_term n d = d + n div d" by (simp add: pair_term_def)
    with s0 show "4 dvd pair_term n d" by (simp add: dvd_eq_mod_eq_0)
  qed
  then have "4 dvd divisor_sum n" by (simp only: pairing_sum [OF n(1)])
  with perfect have "4 dvd 2 * n" by simp
  with n(2) show False by presburger
qed

lemma divisors_double:
  assumes "0 < n"
  shows "divisors (2 * n) = divisors n \<union> (\<lambda>d. 2 * d) ` divisors n"
proof (intro equalityI subsetI)
  fix d assume "d \<in> divisors (2 * n)"
  then have d: "0 < d" "d dvd 2 * n" using assms by (simp_all add: divisors_iff)
  show "d \<in> divisors n \<union> (\<lambda>d. 2 * d) ` divisors n"
  proof (cases "even d")
    case True
    then obtain e where e: "d = 2 * e" by (elim evenE)
    with d have "0 < e" "e dvd n" by simp_all
    then have "e \<in> divisors n" using assms by (simp add: divisors_iff)
    with e show ?thesis by blast
  next
    case False
    then have "coprime d 2" by (simp add: coprime_right_2_iff_odd)
    with d(2) have "d dvd n" by (simp add: coprime_dvd_mult_right_iff)
    with d(1) show ?thesis using assms by (simp add: divisors_iff)
  qed
next
  fix d assume "d \<in> divisors n \<union> (\<lambda>d. 2 * d) ` divisors n"
  then show "d \<in> divisors (2 * n)"
    using assms by (auto simp add: divisors_iff)
qed

lemma divisors_double_inter_odd:
  assumes "0 < n" "odd n"
  shows "divisors n \<inter> (\<lambda>d. 2 * d) ` divisors n = {}"
proof -
  { fix e assume "2 * e \<in> divisors n"
    then have "2 * e dvd n" by (simp add: divisors_def)
    then have "even n" by (metis dvd_mult_left even_mult_iff dvdE)
    with assms have False by simp }
  then show ?thesis by auto
qed

lemma divisors_double_inter_even:
  assumes "0 < m"
  shows "divisors (2 * m) \<inter> (\<lambda>d. 2 * d) ` divisors (2 * m) = (\<lambda>d. 2 * d) ` divisors m"
proof (intro equalityI subsetI)
  fix x assume "x \<in> divisors (2 * m) \<inter> (\<lambda>d. 2 * d) ` divisors (2 * m)"
  then obtain e where e: "x = 2 * e" "e \<in> divisors (2 * m)" "2 * e \<in> divisors (2 * m)" by auto
  then have "0 < e" "e dvd m" using assms by (simp_all add: divisors_iff)
  then have "e \<in> divisors m" using assms by (simp add: divisors_iff)
  with e show "x \<in> (\<lambda>d. 2 * d) ` divisors m" by blast
next
  fix x assume "x \<in> (\<lambda>d. 2 * d) ` divisors m"
  then obtain e where e: "x = 2 * e" "e \<in> divisors m" by auto
  then have "0 < e" "e dvd m" using assms by (simp_all add: divisors_iff)
  then have "e \<in> divisors (2 * m)" "2 * e \<in> divisors (2 * m)"
    using assms by (simp_all add: divisors_iff)
  with e show "x \<in> divisors (2 * m) \<inter> (\<lambda>d. 2 * d) ` divisors (2 * m)" by blast
qed

lemma sum_double_image: "(\<Sum>x \<in> (\<lambda>d. 2 * d) ` A. x) = 2 * (\<Sum>d \<in> A. d)" for A :: "int set"
proof -
  have "inj_on (\<lambda>d::int. 2 * d) A" by (simp add: inj_on_def)
  then have "(\<Sum>x \<in> (\<lambda>d. 2 * d) ` A. x) = (\<Sum>d \<in> A. 2 * d)" by (simp add: sum.reindex)
  then show ?thesis by (simp add: sum_distrib_left)
qed

lemma divisor_sum_double_odd:
  assumes "0 < n" "odd n"
  shows "divisor_sum (2 * n) = 3 * divisor_sum n"
proof -
  have "divisor_sum (2 * n) = (\<Sum>d \<in> divisors n. d) + (\<Sum>x \<in> (\<lambda>d. 2 * d) ` divisors n. x)"
    unfolding divisor_sum_def divisors_double [OF assms(1)]
    by (rule sum.union_disjoint) (simp_all add: divisors_double_inter_odd [OF assms])
  then show ?thesis by (simp add: sum_double_image divisor_sum_def)
qed

lemma divisor_sum_double_even:
  assumes "0 < m"
  shows "divisor_sum (2 * (2 * m)) = 3 * divisor_sum (2 * m) - 2 * divisor_sum m"
proof -
  let ?A = "divisors (2 * m)"
  let ?B = "(\<lambda>d. 2 * d) ` divisors (2 * m)"
  have pos: "0 < 2 * m" using assms by simp
  have "(\<Sum>d \<in> ?A \<union> ?B. d) + (\<Sum>d \<in> ?A \<inter> ?B. d) = (\<Sum>d \<in> ?A. d) + (\<Sum>d \<in> ?B. d)"
    by (rule sum.union_inter) simp_all
  then have "divisor_sum (2 * (2 * m)) + 2 * divisor_sum m = divisor_sum (2 * m) + 2 * divisor_sum (2 * m)"
    unfolding divisors_double_inter_even [OF assms] divisors_double [OF pos, symmetric]
    by (simp only: sum_double_image divisor_sum_def)
  then show ?thesis by simp
qed

lemma divisor_sum_pow2:
  assumes "0 < m" "odd m"
  shows "divisor_sum (2 ^ k * m) = (2 ^ (k + 1) - 1) * divisor_sum m
       \<and> divisor_sum (2 ^ (k + 1) * m) = (2 ^ (k + 2) - 1) * divisor_sum m"
proof (induction k)
  case 0
  then show ?case using divisor_sum_double_odd [OF assms] by simp
next
  case (Suc k)
  have pos: "0 < 2 ^ k * m" using assms by simp
  have "divisor_sum (2 ^ (Suc k + 1) * m) = divisor_sum (2 * (2 * (2 ^ k * m)))"
    by (simp add: mult.assoc)
  also have "\<dots> = 3 * divisor_sum (2 * (2 ^ k * m)) - 2 * divisor_sum (2 ^ k * m)"
    by (rule divisor_sum_double_even [OF pos])
  also have "\<dots> = 3 * ((2 ^ (k + 2) - 1) * divisor_sum m) - 2 * ((2 ^ (k + 1) - 1) * divisor_sum m)"
    using Suc.IH by (simp add: mult.assoc)
  also have "\<dots> = (2 ^ (Suc k + 2) - 1) * divisor_sum m"
    by (simp add: algebra_simps)
  finally show ?case using Suc.IH by simp
qed

lemma two_adic:
  fixes n :: int
  assumes "0 < n"
  shows "\<exists>k m. n = 2 ^ k * m \<and> odd m \<and> 0 < m"
  using assms
proof (induction "nat n" arbitrary: n rule: less_induct)
  case less
  show ?case
  proof (cases "even n")
    case True
    then obtain h where h: "n = 2 * h" by (elim evenE)
    with less.prems have "0 < h" "nat h < nat n" by simp_all
    then obtain k m where "h = 2 ^ k * m" "odd m" "0 < m" using less.hyps by blast
    with h have "n = 2 ^ Suc k * m" by simp
    with \<open>odd m\<close> \<open>0 < m\<close> show ?thesis by blast
  next
    case False
    then have "n = 2 ^ 0 * n" by simp
    with False less.prems show ?thesis by blast
  qed
qed

lemma divisor_sum_three:
  assumes "0 < m" "q \<in> divisors m" "1 < q" "q < m"
  shows "1 + q + m \<le> divisor_sum m"
proof -
  have sub: "{1, q, m} \<subseteq> divisors m" using assms by (simp add: divisors_iff)
  have "(\<Sum>d \<in> {1, q, m}. d) \<le> (\<Sum>d \<in> divisors m. d)"
    by (rule sum_mono2 [OF finite_divisors sub]) (auto dest: divisors_pos)
  moreover have "(\<Sum>d \<in> {1, q, m}. d) = 1 + q + m" using assms by simp
  ultimately show ?thesis by (simp add: divisor_sum_def)
qed

lemma even_perfect_form:
  assumes n: "0 < n" "even n" and perfect: "divisor_sum n = 2 * n"
  shows "\<exists>k. 0 < k \<and> n = 2 ^ k * (2 ^ (k + 1) - 1) \<and> divisor_sum (2 ^ (k + 1) - 1) = 2 ^ (k + 1)"
proof -
  obtain k m where km: "n = 2 ^ k * m" "odd m" "0 < m" using two_adic [OF n(1)] by blast
  have k: "0 < k" using km n(2) by (cases k) simp_all
  define M :: int where "M = 2 ^ (k + 1) - 1"
  have "(4::int) \<le> 2 ^ (k + 1)"
    using k power_increasing [of 2 "k + 1" "2::int"] by simp
  then have M3: "3 \<le> M" by (simp add: M_def)
  have sig: "divisor_sum n = M * divisor_sum m"
    using divisor_sum_pow2 [OF km(3,2), of k] km(1) by (simp add: M_def)
  have "2 * n = (M + 1) * m" using km(1) by (simp add: M_def)
  with sig perfect have eq: "M * divisor_sum m = (M + 1) * m" by simp
  have "coprime M (M + 1)" by (rule coprime_add_one_right)
  moreover have "M dvd (M + 1) * m" using eq by (metis dvd_triv_left)
  ultimately have "M dvd m" by (simp add: coprime_dvd_mult_right_iff)
  then obtain q where q: "m = M * q" by (elim dvdE)
  have qpos: "0 < q" using q km(3) M3 by (simp add: zero_less_mult_iff)
  have "M * divisor_sum m = M * ((M + 1) * q)" using eq q by (simp add: algebra_simps)
  then have sm: "divisor_sum m = (M + 1) * q" using M3 by simp
  have "q = 1"
  proof (rule ccontr)
    assume "q \<noteq> 1"
    with qpos have q1: "1 < q" by simp
    have qm: "q < m"
    proof -
      have "1 * q < M * q" using M3 qpos by (intro mult_strict_right_mono) simp_all
      then show ?thesis using q by simp
    qed
    have "q dvd m" using q by simp
    then have "q \<in> divisors m" using km(3) qpos by (simp add: divisors_iff)
    then have "1 + q + m \<le> divisor_sum m" by (rule divisor_sum_three [OF km(3) _ q1 qm])
    with sm q show False by (simp add: algebra_simps)
  qed
  with q sm have "m = M" "divisor_sum M = M + 1" by simp_all
  with km(1) k show ?thesis unfolding M_def by (intro exI [of _ k]) simp
qed

lemma divisor_sum_15: "divisor_sum 15 \<noteq> 16"
  using divisor_sum_three [of 15 3] by (simp add: divisors_iff)

lemma divisor_sum_63: "divisor_sum 63 \<noteq> 64"
  using divisor_sum_three [of 63 3] by (simp add: divisors_iff)

lemma even_perfect_bounded:
  assumes n: "0 < n" "n \<le> 10000" "even n" and perfect: "divisor_sum n = 2 * n"
  shows "n \<in> {6, 28, 496, 8128}"
proof -
  obtain k where k: "0 < k" "n = 2 ^ k * (2 ^ (k + 1) - 1)"
    "divisor_sum (2 ^ (k + 1) - 1) = 2 ^ (k + 1)"
    using even_perfect_form [OF n(1,3) perfect] by blast
  have "k < 7"
  proof (rule ccontr)
    assume "\<not> k < 7"
    then have "7 \<le> k" by simp
    then have a: "(2::int) ^ 7 \<le> 2 ^ k" and b: "(2::int) ^ 8 \<le> 2 ^ (k + 1)"
      by (intro power_increasing; simp)+
    have "(2::int) ^ 7 * (2 ^ 8 - 1) \<le> 2 ^ k * (2 ^ (k + 1) - 1)"
      using a b by (intro mult_mono) simp_all
    with k(2) n(2) show False by simp
  qed
  with k(1) have "k = 1 \<or> k = 2 \<or> k = 3 \<or> k = 4 \<or> k = 5 \<or> k = 6" by arith
  then show ?thesis
    using k(2,3) divisor_sum_15 divisor_sum_63 by (elim disjE) simp_all
qed

lemma loop_step:
  "0 < count \<Longrightarrow> count * count \<le> number \<Longrightarrow>
   isPerfectNumber_loop number count sm =
   isPerfectNumber_loop number (count + 1)
     (if number mod count = 0
      then (if count = number div count then sm + count else sm + count + number div count)
      else sm)"
proof -
  assume c: "0 < count" "count * count \<le> number"
  then have n: "0 \<le> number" by (smt (verit) mult_nonneg_nonneg)
  with c show ?thesis
    by (subst isPerfectNumber_loop.simps) (simp add: count_le_sqrt_def smod_pos sdiv_pos Let_def)
qed

lemma loop_done:
  "0 < count \<Longrightarrow> number < count * count \<Longrightarrow> isPerfectNumber_loop number count sm = sm"
  by (subst isPerfectNumber_loop.simps) (simp add: count_le_sqrt_def)

lemma loop_6: "isPerfectNumber_loop 6 1 0 = 12"
  by (simp add: loop_step loop_done)

lemma loop_28: "isPerfectNumber_loop 28 1 0 = 56"
  by (simp add: loop_step loop_done)

lemma loop_496: "isPerfectNumber_loop 496 1 0 = 992"
  by (simp add: loop_step loop_done)

lemma loop_8128: "isPerfectNumber_loop 8128 1 0 = 16256"
  by (simp add: loop_step loop_done)

lemma perfect_four: "n \<in> {6, 28, 496, 8128} \<Longrightarrow> divisor_sum n = 2 * n"
  using isPerfectNumber_loop_divisor_sum [of 6] isPerfectNumber_loop_divisor_sum [of 28]
    isPerfectNumber_loop_divisor_sum [of 496] isPerfectNumber_loop_divisor_sum [of 8128]
    loop_6 loop_28 loop_496 loop_8128
  by auto

section \<open>Odd numbers congruent to 1 modulo 4\<close>

lemma cell_hit:
  assumes "cell_ok s n (Cell d q j r)"
  shows "d dvd n \<longleftrightarrow> j = 0"
proof
  assume "j = 0"
  with assms have "q * d = n" by simp
  then show "d dvd n" by (metis dvd_triv_right)
next
  assume dv: "d dvd n"
  from assms have ok: "0 < d" "coprime d s" "int j < d" "q * d = n + s * int j" by simp_all
  have "d dvd n + s * int j" using ok(4) by (metis dvd_triv_right)
  with dv have "d dvd s * int j" using dvd_add_right_iff by blast
  with ok(2) have "d dvd int j" by (simp add: coprime_dvd_mult_right_iff)
  with ok(3) show "j = 0"
    using zdvd_imp_le [of d "int j"] by (cases "j = 0") simp_all
qed

lemma cell_hit_term:
  assumes "cell_ok s n (Cell d q 0 r)"
  shows "hit_term n d = (if d \<le> q then (if d = q then d else d + q) else 0)"
proof -
  from assms have ok: "0 < d" "q * d = n" by simp_all
  then have dv: "d dvd n" by (metis dvd_triv_right)
  have qd: "n div d = q" using ok by auto
  have "d * d \<le> n \<longleftrightarrow> d \<le> q"
    using ok by (metis mult.commute mult_le_cancel_left_pos)
  then show ?thesis using dv qd by (simp add: hit_term_def pair_term_def)
qed

lemma cell_miss_term:
  assumes "cell_ok s n (Cell d q (Suc k) r)"
  shows "hit_term n d = 0"
  using cell_hit [OF assms] by (simp add: hit_term_def)

lemma hits_total_eq:
  "list_all (cell_ok s n) cs \<Longrightarrow> hits_total cs acc = acc + (\<Sum>d\<leftarrow>map cell_d cs. hit_term n d)"
proof (induction cs acc rule: hits_total.induct)
  case (1 acc)
  then show ?case by simp
next
  case (2 d q r cs acc)
  then have ok: "cell_ok s n (Cell d q 0 r)" and rest: "list_all (cell_ok s n) cs" by simp_all
  show ?case
    using "2.IH" [OF rest] cell_hit_term [OF ok] by simp
next
  case (3 d q k r cs acc)
  then have ok: "cell_ok s n (Cell d q (Suc k) r)" and rest: "list_all (cell_ok s n) cs" by simp_all
  show ?case
    using "3.IH" [OF rest] cell_miss_term [OF ok] by simp
qed

lemma step_cell_ok: "cell_ok s n c \<Longrightarrow> cell_ok s (n + s) (step_cell s c)"
proof (induction s c rule: step_cell.induct)
  case (1 s d q k r)
  then show ?case by (simp add: algebra_simps)
next
  case (2 s d q r)
  then have ok: "0 < d" "coprime d s" "int r = d - 1" "q * d = n" by simp_all
  have "(q + s) * d = n + s * d" using ok(4) by (simp add: algebra_simps)
  also have "s * d = s + s * int r"
  proof -
    have "d = 1 + int r" using ok(3) by simp
    then show ?thesis by (simp only: distrib_left mult_1_right)
  qed
  finally have "(q + s) * d = n + s + s * int r" by (simp only: add.assoc)
  then show ?case using ok(1,2,3) by simp
qed

lemma advance_cells_ok: "list_all (cell_ok s n) cs \<Longrightarrow> list_all (cell_ok s (n + s)) (advance_cells s cs)"
  by (induction cs) (simp_all add: step_cell_ok)

lemma step_cell_d: "cell_d (step_cell s c) = cell_d c"
  by (induction s c rule: step_cell.induct) simp_all

lemma advance_cells_d: "map cell_d (advance_cells s cs) = map cell_d cs"
  by (induction cs) (simp_all add: step_cell_d)

lemma sieve_scan_empty:
  "list_all (cell_ok s n) cs \<Longrightarrow> n2 = 2 * n \<Longrightarrow> sieve_scan s cs n n2 hi = [] \<Longrightarrow>
   0 < s \<Longrightarrow> n + s * int k \<le> hi \<Longrightarrow>
   (\<Sum>d\<leftarrow>map cell_d cs. hit_term (n + s * int k) d) \<noteq> 2 * (n + s * int k)"
proof (induction k arbitrary: cs n n2)
  case 0
  then have "hits_total cs 0 \<noteq> n2"
    by (subst (asm) sieve_scan.simps) (auto split: if_splits)
  then show ?case using hits_total_eq [OF 0(1), of 0] 0(2) by simp
next
  case (Suc k)
  have le: "n \<le> hi"
  proof -
    have "0 \<le> s * int (Suc k)" using Suc.prems(4) by simp
    with Suc.prems(5) show ?thesis by linarith
  qed
  with Suc.prems(3,4) have next_empty: "sieve_scan s (advance_cells s cs) (n + s) (n2 + 2 * s) hi = []"
    by (subst (asm) sieve_scan.simps) (auto split: if_splits)
  have eq: "n + s + s * int k = n + s * int (Suc k)" by (simp add: algebra_simps)
  have "(\<Sum>d\<leftarrow>map cell_d (advance_cells s cs). hit_term (n + s + s * int k) d) \<noteq> 2 * (n + s + s * int k)"
  proof (rule Suc.IH [OF advance_cells_ok [OF Suc.prems(1)] _ next_empty Suc.prems(4)])
    show "n2 + 2 * s = 2 * (n + s)" using Suc.prems(2) by simp
    show "n + s + s * int k \<le> hi" using Suc.prems(5) by (simp only: eq)
  qed
  then show ?case unfolding eq advance_cells_d by blast
qed


lemma coprime_odd_4: "odd d \<Longrightarrow> coprime d (4::int)"
proof -
  assume "odd d"
  then have "coprime d (2 ^ 2)" by (simp only: coprime_power_right_iff coprime_right_2_iff_odd) simp
  then show ?thesis by simp
qed

lemma sieve_cells_ok:
  "d = 4 * int a + 1 \<Longrightarrow> a3 = 3 * a \<Longrightarrow> a4 = 4 * a \<Longrightarrow>
   list_all (cell_ok 4 1) (sieve_cells k d a a3 a4)"
proof (induction k arbitrary: d a a3 a4)
  case 0
  then show ?case by simp
next
  case (Suc k)
  have o1: "odd d" and o2: "odd (d + 2)" using Suc.prems(1) by simp_all
  have c1: "cell_ok 4 1 (Cell d 1 a a4)"
  proof -
    from Suc.prems have "0 < d" "int a4 = d - 1" "a \<le> a4" "1 * d = 1 + 4 * int a"
      by simp_all
    then show ?thesis using coprime_odd_4 [OF o1] unfolding cell_ok.simps by blast
  qed
  have c2: "cell_ok 4 1 (Cell (d + 2) 3 (Suc (Suc a3)) (Suc (Suc a4)))"
  proof -
    from Suc.prems have "0 < d + 2" "int (Suc (Suc a4)) = d + 2 - 1" "Suc (Suc a3) \<le> Suc (Suc a4)"
      "3 * (d + 2) = 1 + 4 * int (Suc (Suc a3))"
      by simp_all
    then show ?thesis using coprime_odd_4 [OF o2] unfolding cell_ok.simps by blast
  qed
  have rest: "list_all (cell_ok 4 1)
      (sieve_cells k (d + 4) (Suc a) (Suc (Suc (Suc a3))) (Suc (Suc (Suc (Suc a4)))))"
    by (rule Suc.IH) (use Suc.prems in simp_all)
  show ?case unfolding sieve_cells.simps list.pred_inject using c1 c2 rest by blast
qed

lemma sieve_cells_lower_all: "list_all (\<lambda>c. d \<le> cell_d c) (sieve_cells k d a a3 a4)"
proof (induction k arbitrary: d a a3 a4)
  case 0
  then show ?case by simp
next
  case (Suc k)
  have "list_all (\<lambda>c. d + 4 \<le> cell_d c)
      (sieve_cells k (d + 4) (Suc a) (Suc (Suc (Suc a3))) (Suc (Suc (Suc (Suc a4)))))"
    by (rule Suc.IH)
  then have "list_all (\<lambda>c. d \<le> cell_d c)
      (sieve_cells k (d + 4) (Suc a) (Suc (Suc (Suc a3))) (Suc (Suc (Suc (Suc a4)))))"
    by (rule list.pred_mono_strong) simp
  then show ?case by simp
qed

lemma sieve_cells_lower: "x \<in> set (map cell_d (sieve_cells k d a a3 a4)) \<Longrightarrow> d \<le> x"
  using sieve_cells_lower_all [of d k a a3 a4] by (auto simp add: list_all_iff)

lemma sieve_cells_distinct: "distinct (map cell_d (sieve_cells k d a a3 a4))"
proof (induction k arbitrary: d a a3 a4)
  case 0
  then show ?case by simp
next
  case (Suc k)
  let ?rest = "map cell_d (sieve_cells k (d + 4) (Suc a) (Suc (Suc (Suc a3))) (Suc (Suc (Suc (Suc a4)))))"
  have "distinct ?rest" by (rule Suc.IH)
  moreover have "d \<notin> set ?rest" using sieve_cells_lower [of d k "d + 4"] by fastforce
  moreover have "d + 2 \<notin> set ?rest" using sieve_cells_lower [of "d + 2" k "d + 4"] by fastforce
  ultimately show ?case by simp
qed

lemma sieve_cells_member:
  "d \<le> x \<Longrightarrow> x < d + 4 * int k \<Longrightarrow> even (x - d) \<Longrightarrow>
   x \<in> set (map cell_d (sieve_cells k d a a3 a4))"
proof (induction k arbitrary: d a a3 a4)
  case 0
  then show ?case by simp
next
  case (Suc k)
  show ?case
  proof (cases "x = d \<or> x = d + 2")
    case True
    then show ?thesis by auto
  next
    case False
    with Suc.prems have "d + 4 \<le> x" by presburger
    moreover have "x < d + 4 + 4 * int k" using Suc.prems(2) by simp
    moreover have "even (x - (d + 4))" using Suc.prems(3) by simp
    ultimately have "x \<in> set (map cell_d
        (sieve_cells k (d + 4) (Suc a) (Suc (Suc (Suc a3))) (Suc (Suc (Suc (Suc a4))))))"
      by (rule Suc.IH)
    then show ?thesis by simp
  qed
qed

lemma hits_divisor_sum:
  assumes n: "0 < n" "odd n" "n < 10201"
    and ds: "distinct ds" "\<forall>d \<in> set ds. 0 < d" "\<forall>x. 1 \<le> x \<and> x \<le> 99 \<and> odd x \<longrightarrow> x \<in> set ds"
  shows "(\<Sum>d\<leftarrow>ds. hit_term n d) = divisor_sum n"
proof -
  let ?S = "{d \<in> {1..n}. d * d \<le> n \<and> d dvd n}"
  have sub: "?S \<subseteq> set ds"
  proof
    fix d assume "d \<in> ?S"
    then have d: "1 \<le> d" "d * d \<le> n" "d dvd n" by simp_all
    have "d \<le> 100"
    proof (rule ccontr)
      assume "\<not> d \<le> 100"
      then have "101 \<le> d" by simp
      then have "101 * 101 \<le> d * d" by (intro mult_mono) simp_all
      with d(2) n(3) show False by simp
    qed
    moreover have "odd d" using d(3) n(2) by (metis dvd_trans)
    ultimately have "d \<le> 99" by presburger
    with d(1) \<open>odd d\<close> show "d \<in> set ds" using ds(3) by blast
  qed
  have "(\<Sum>d\<leftarrow>ds. hit_term n d) = (\<Sum>d \<in> set ds. hit_term n d)"
    using ds(1) by (rule sum_list_distinct_conv_sum_set)
  also have "\<dots> = (\<Sum>d \<in> ?S. hit_term n d)"
  proof (rule sum.mono_neutral_right [OF _ sub])
    show "finite (set ds)" by simp
    show "\<forall>d \<in> set ds - ?S. hit_term n d = 0"
    proof
      fix d assume "d \<in> set ds - ?S"
      then have p: "0 < d" and out: "d \<notin> ?S" using ds(2) by auto
      show "hit_term n d = 0"
      proof (cases "d dvd n \<and> d * d \<le> n")
        case True
        then have "d \<le> n" using n(1) by (simp add: zdvd_imp_le)
        with True p out show ?thesis by simp
      next
        case False
        then show ?thesis by (auto simp add: hit_term_def)
      qed
    qed
  qed
  also have "\<dots> = (\<Sum>d \<in> ?S. pair_term n d)"
    by (rule sum.cong) (simp_all add: hit_term_def)
  also have "\<dots> = divisor_sum n" using pairing_sum [OF n(1)] .
  finally show ?thesis .
qed

lemma sieve_run: "sieve_scan 4 (sieve_cells 25 1 0 0 0) 1 2 10000 = []"
  by (simp only: if_True if_False arith_simps rel_simps numeral_plus_one one_plus_numeral
      one_add_one mult_1_left mult_1_right add_0_left add_0_right simp_thms
      step_cell.simps advance_cells.simps hits_total.simps sieve_cells.simps sieve_scan.simps
      numeral_eq_Suc pred_numeral_simps BitM.simps list.inject cong: if_weak_cong)

lemma not_perfect_1_mod_4:
  assumes "1 \<le> n" "n \<le> 10000" "n mod 4 = 1"
  shows "divisor_sum n \<noteq> 2 * n"
proof -
  define k where "k = nat ((n - 1) div 4)"
  have nk: "n = 1 + 4 * int k" using assms by (simp add: k_def) presburger
  let ?cs = "sieve_cells 25 1 0 0 0"
  have ok: "list_all (cell_ok 4 1) ?cs" by (rule sieve_cells_ok) simp_all
  have "(\<Sum>d\<leftarrow>map cell_d ?cs. hit_term (1 + 4 * int k) d) \<noteq> 2 * (1 + 4 * int k)"
    by (rule sieve_scan_empty [OF ok _ sieve_run]) (use assms nk in simp_all)
  moreover have "(\<Sum>d\<leftarrow>map cell_d ?cs. hit_term n d) = divisor_sum n"
  proof (rule hits_divisor_sum)
    show "0 < n" "odd n" "n < 10201" using assms by presburger+
    show "distinct (map cell_d ?cs)" by (rule sieve_cells_distinct)
    show "\<forall>d \<in> set (map cell_d ?cs). 0 < d" using sieve_cells_lower [of _ 25 1 0 0 0] by fastforce
    show "\<forall>x. 1 \<le> x \<and> x \<le> 99 \<and> odd x \<longrightarrow> x \<in> set (map cell_d ?cs)"
    proof (intro allI impI)
      fix x :: int assume "1 \<le> x \<and> x \<le> 99 \<and> odd x"
      then show "x \<in> set (map cell_d ?cs)" by (intro sieve_cells_member) simp_all
    qed
  qed
  ultimately show ?thesis using nk by simp
qed

section \<open>The perfect numbers up to 10000\<close>

lemma perfect_in_range:
  assumes "1 \<le> n" "n \<le> 10000"
  shows "divisor_sum n = 2 * n \<longleftrightarrow> n \<in> {6, 28, 496, 8128}"
proof
  assume p: "divisor_sum n = 2 * n"
  show "n \<in> {6, 28, 496, 8128}"
  proof (cases "even n")
    case True
    with assms p show ?thesis by (intro even_perfect_bounded) simp_all
  next
    case False
    then have "n mod 4 = 1 \<or> n mod 4 = 3" by presburger
    then show ?thesis
    proof
      assume "n mod 4 = 1"
      with assms p not_perfect_1_mod_4 [of n] show ?thesis by simp
    next
      assume "n mod 4 = 3"
      with assms p not_perfect_3_mod_4 [of n] show ?thesis by simp
    qed
  qed
next
  assume "n \<in> {6, 28, 496, 8128}"
  then show "divisor_sum n = 2 * n" by (rule perfect_four)
qed

lemma isPerfectNumber_in_range:
  assumes "1 \<le> n" "n \<le> 10000"
  shows "isPerfectNumber n \<longleftrightarrow> n \<in> {6, 28, 496, 8128}"
proof -
  have "0 < n" using assms by simp
  then have "isPerfectNumber n \<longleftrightarrow> even n \<and> divisor_sum n = 2 * n" by (rule isPerfectNumber_iff)
  also have "\<dots> \<longleftrightarrow> even n \<and> n \<in> {6, 28, 496, 8128}" using perfect_in_range [OF assms] by simp
  also have "\<dots> \<longleftrightarrow> n \<in> {6, 28, 496, 8128}" by auto
  finally show ?thesis .
qed

lemma is_perfect_ref_in_range:
  assumes "1 \<le> n" "n \<le> 10000"
  shows "is_perfect_ref n \<longleftrightarrow> n \<in> {6, 28, 496, 8128}"
  using assms is_perfect_ref_iff [of n] perfect_in_range [OF assms] by simp

lemma filter_isPerfectNumber_range:
  "filter isPerfectNumber [1..10000] = [6, 28, 496, 8128]"
proof (rule sorted_distinct_set_unique)
  show "sorted (filter isPerfectNumber [1..10000])" by (rule sorted_wrt_filter) simp
  show "distinct (filter isPerfectNumber [1..10000])" by simp
  show "sorted [6, 28, 496, 8128 :: int]" by simp
  show "distinct [6, 28, 496, 8128 :: int]" by simp
  show "set (filter isPerfectNumber [1..10000]) = set [6, 28, 496, 8128]"
    using isPerfectNumber_in_range by auto
qed

lemma main_loop_filter:
  "main_loop count =
     concat (map (\<lambda>n. [DisplayFactors n, DisplayExpectedSqrt (fp_of_int n),
                          ComputeSquareRoot (fp_of_int n)])
       (filter isPerfectNumber [count..RANGE_UPPER_BOUND]))"
proof (induction count rule: main_loop.induct)
  case (1 count)
  show ?case
  proof (cases "count \<le> RANGE_UPPER_BOUND")
    case True
    then have up: "[count..RANGE_UPPER_BOUND] = count # [count + 1..RANGE_UPPER_BOUND]"
      by (simp add: upto_rec1)
    show ?thesis
      using True "1.IH" by (subst main_loop.simps) (simp add: up)
  next
    case False
    then show ?thesis by (subst main_loop.simps) simp
  qed
qed

lemma radicands_concat:
  "radicands (concat (map (\<lambda>n. [DisplayFactors n, DisplayExpectedSqrt (fp_of_int n),
                          ComputeSquareRoot (fp_of_int n)]) ns)) = map fp_of_int ns"
  by (induction ns) simp_all

lemma radicands_main: "radicands main = [Fin 6, Fin 28, Fin 496, Fin 8128]"
  by (simp add: main_def main_loop_filter radicands_concat RANGE_LOWER_BOUND_def
      RANGE_UPPER_BOUND_def filter_isPerfectNumber_range fp_of_int_def)

lemma main_trace:
  "main = [DisplayFactors 6, DisplayExpectedSqrt (Fin 6), ComputeSquareRoot (Fin 6),
           DisplayFactors 28, DisplayExpectedSqrt (Fin 28), ComputeSquareRoot (Fin 28),
           DisplayFactors 496, DisplayExpectedSqrt (Fin 496), ComputeSquareRoot (Fin 496),
           DisplayFactors 8128, DisplayExpectedSqrt (Fin 8128), ComputeSquareRoot (Fin 8128)]"
  by (simp add: main_def main_loop_filter RANGE_LOWER_BOUND_def
      RANGE_UPPER_BOUND_def filter_isPerfectNumber_range fp_of_int_def)

text \<open>
  The accumulator of the loop only grows, and its final value is the divisor sum, which
  for a number of the scanned range is below \<open>2 ^ 31\<close>: the \<^verbatim>\<open>int\<close> arithmetic of
  \<^verbatim>\<open>isPerfectNumber\<close> does not overflow there.
\<close>

lemma isPerfectNumber_loop_grows:
  assumes "0 \<le> n" "0 < c"
  shows "sm \<le> isPerfectNumber_loop n c sm"
proof -
  have "0 \<le> (\<Sum>d \<in> {d \<in> {c..n}. d * d \<le> n \<and> d dvd n}. pair_term n d)"
  proof (rule sum_nonneg)
    fix d assume "d \<in> {d \<in> {c..n}. d * d \<le> n \<and> d dvd n}"
    then have "0 < d" using assms(2) by simp
    then have "0 \<le> n div d" using assms(1) by (simp add: pos_imp_zdiv_nonneg_iff)
    with \<open>0 < d\<close> show "0 \<le> pair_term n d" by (simp add: pair_term_def)
  qed
  then show ?thesis using loop_closed_form [OF assms, of sm] by simp
qed

lemma divisor_sum_bound:
  assumes "0 < n"
  shows "0 \<le> divisor_sum n" "divisor_sum n \<le> n * n"
proof -
  show "0 \<le> divisor_sum n"
    unfolding divisor_sum_def by (rule sum_nonneg) (auto dest: divisors_pos)
  have "card (divisors n) \<le> card {1..n}"
    by (rule card_mono) (auto simp add: divisors_def)
  then have c: "int (card (divisors n)) \<le> n" using assms by simp
  have "divisor_sum n \<le> int (card (divisors n)) * n"
    unfolding divisor_sum_def using sum_bounded_above [of "divisors n" "\<lambda>d. d" n]
    by (auto dest: divisors_pos)
  also have "\<dots> \<le> n * n" using c assms by (intro mult_right_mono) simp_all
  finally show "divisor_sum n \<le> n * n" .
qed

lemma isPerfectNumber_loop_fits_int:
  assumes "1 \<le> n" "n \<le> 10000"
  shows "0 \<le> isPerfectNumber_loop n 1 0" "isPerfectNumber_loop n 1 0 < 2 ^ 31"
proof -
  have n: "0 < n" using assms by simp
  show "0 \<le> isPerfectNumber_loop n 1 0"
    using divisor_sum_bound(1) [OF n] by (simp add: isPerfectNumber_loop_divisor_sum [OF n])
  have "n * n \<le> 10000 * 10000" using assms by (intro mult_mono) simp_all
  with divisor_sum_bound(2) [OF n] show "isPerfectNumber_loop n 1 0 < 2 ^ 31"
    by (simp add: isPerfectNumber_loop_divisor_sum [OF n])
qed

section \<open>The perfectness test against the reference, and the scan of the range\<close>

text \<open>
  Claim C1.  For every positive \<open>n\<close> the divisor sum of the pairing loop, less \<open>n\<close>,
  equals the divisor sum of the naive scan over \<open>1..n-1\<close>; for every \<open>n\<close> of the
  scanned range \<^verbatim>\<open>isPerfectNumber\<close> agrees with the brute-force reference.
\<close>

theorem isPerfectNumber_agrees_with_reference:
  "(0 < n \<longrightarrow> isPerfectNumber_loop n 1 0 - n = naive_divisor_sum n)
   \<and> (RANGE_LOWER_BOUND \<le> n \<and> n \<le> RANGE_UPPER_BOUND \<longrightarrow> isPerfectNumber n = is_perfect_ref n)"
  using isPerfectNumber_in_range [of n] is_perfect_ref_in_range [of n]
  by (simp add: isPerfectNumber_loop_divisor_sum naive_divisor_sum_eq RANGE_LOWER_BOUND_def
      RANGE_UPPER_BOUND_def)

theorem isPerfectNumber_agrees_with_reference_witness:
  "(0::int) < 28 \<and> RANGE_LOWER_BOUND \<le> 28 \<and> 28 \<le> RANGE_UPPER_BOUND
   \<and> isPerfectNumber_loop 28 1 0 - 28 = 28 \<and> naive_divisor_sum 28 = 28
   \<and> isPerfectNumber 28 \<and> is_perfect_ref 28"
  using isPerfectNumber_agrees_with_reference [of 28] loop_28
  by (simp add: RANGE_LOWER_BOUND_def RANGE_UPPER_BOUND_def is_perfect_ref_def)

text \<open>
  Claim C2.  In the default range the numbers for which \<^verbatim>\<open>isPerfectNumber\<close> returns
  true are exactly 6, 28, 496 and 8128, all even; the test is false for 1 and 2 and true
  for 28.
\<close>

theorem perfect_numbers_in_default_range:
  "{n \<in> {RANGE_LOWER_BOUND..RANGE_UPPER_BOUND}. isPerfectNumber n} = {6, 28, 496, 8128}
   \<and> even (6::int) \<and> even (28::int) \<and> even (496::int) \<and> even (8128::int)
   \<and> isPerfectNumber 1 = False \<and> isPerfectNumber 2 = False \<and> isPerfectNumber 28 = True"
  using isPerfectNumber_in_range [of 1] isPerfectNumber_in_range [of 2]
    isPerfectNumber_in_range [of 28] isPerfectNumber_in_range
  by (auto simp add: RANGE_LOWER_BOUND_def RANGE_UPPER_BOUND_def)

text \<open>
  Claim C9.  \<^verbatim>\<open>main\<close> calls \<^verbatim>\<open>computeSquareRoot\<close> exactly on 6, 28, 496 and 8128.
  Each radicand is an integer that is at least 6 and perfect by the reference definition;
  its initial guess is a strictly positive finite value, and the solver returns a finite
  value for it, not a NaN.
\<close>

theorem main_calls_solver_on_perfect_numbers:
  "radicands main = [fp_of_int 6, fp_of_int 28, fp_of_int 496, fp_of_int 8128]
   \<and> list_all (\<lambda>x. \<exists>n. x = fp_of_int n \<and> 6 \<le> n \<and> is_perfect_ref n
         \<and> (\<exists>g. getInitialGuess x = Fin g \<and> 0 < g)
         \<and> (\<exists>y k. computeSquareRoot x = Some (Fin y, k))) (radicands main)"
proof -
  have one: "\<exists>n. fp_of_int m = fp_of_int n \<and> 6 \<le> n \<and> is_perfect_ref n
         \<and> (\<exists>g. getInitialGuess (fp_of_int m) = Fin g \<and> 0 < g)
         \<and> (\<exists>y k. computeSquareRoot (fp_of_int m) = Some (Fin y, k))"
    if m: "m \<in> {6, 28, 496, 8128}" for m
  proof -
    have r: "1 \<le> m" "m \<le> 10000" "6 \<le> m" using m by auto
    have pos: "0 < real_of_int m" using r by simp
    have "is_perfect_ref m" using is_perfect_ref_in_range [OF r(1,2)] m by simp
    moreover have "\<exists>g. getInitialGuess (fp_of_int m) = Fin g \<and> 0 < g"
      using pos by (simp add: getInitialGuess_def BASE_E_def fp_of_int_def)
    moreover have "\<exists>y k. computeSquareRoot (fp_of_int m) = Some (Fin y, k)"
      using computeSquareRoot_positive [OF pos] unfolding fp_of_int_def by blast
    ultimately show ?thesis using r(3) by blast
  qed
  have rad: "radicands main = [fp_of_int 6, fp_of_int 28, fp_of_int 496, fp_of_int 8128]"
    by (simp add: radicands_main fp_of_int_def)
  show ?thesis unfolding rad using one [of 6] one [of 28] one [of 496] one [of 8128]
    by (simp del: ex_simps)
qed

end
